theory Spec2Isabelle
  imports Complex_Main "HOL-Library.Word"
begin

section \<open>Python strings and paths\<close>

text \<open>
  Key and file-name strings are \<open>string\<close>.  The chapter text handled by the
  speech pipeline is a Python \<open>str\<close>, a sequence of Unicode code points; it is
  modelled as a list of code points (\<open>nat\<close>), so that \<open>length\<close> counts what
  Python's \<open>len\<close> counts.  Audio data is a list of bytes.
\<close>

type_synonym ustr = "nat list"
type_synonym bytes = "8 word list"

text \<open>\<open>s.split(c)\<close> for a separator of one character: never returns the empty list.\<close>

fun split_on :: "'a \<Rightarrow> 'a list \<Rightarrow> 'a list list" where
  "split_on c [] = [[]]"
| "split_on c (x # xs) =
     (if x = c then [] # split_on c xs
      else (case split_on c xs of [] \<Rightarrow> [[x]] | w # ws \<Rightarrow> (x # w) # ws))"

text \<open>
  \<open>s.rfind(c, lo, hi)\<close> for a single character and non-negative bounds: the
  greatest index \<open>i\<close> with \<open>lo \<le> i < min hi (len s)\<close> and \<open>s[i] = c\<close>.
  Python's \<open>-1\<close> is \<open>None\<close>.  \<open>rscan\<close> looks at index \<open>k - 1\<close> first and walks
  down to \<open>lo\<close>.
\<close>

primrec rscan :: "'a \<Rightarrow> 'a list \<Rightarrow> nat \<Rightarrow> nat \<Rightarrow> nat option" where
  "rscan c s lo 0 = None"
| "rscan c s lo (Suc n) =
     (if n < lo then None else if s ! n = c then Some n else rscan c s lo n)"

definition rfind :: "'a \<Rightarrow> 'a list \<Rightarrow> nat \<Rightarrow> nat \<Rightarrow> nat option" where
  "rfind c s lo hi = rscan c s lo (min hi (length s))"

text \<open>
  A \<open>pathlib.PurePosixPath\<close>: its root (\<open>''''\<close> for a relative path, \<open>''/''\<close> or
  \<open>''//''\<close>) and its components.
\<close>

record path =
  root :: string
  parts :: "string list"

datatype error =
    ValueError
  | OSError
  | FileNotFoundError
  | TTSEngineError
  | GeneratorExit

text \<open>
  Parsing one string segment, as \<open>PurePosixPath\<close> does: a leading slash makes
  the segment absolute (exactly two leading slashes are kept as the root
  \<open>//\<close>), empty components and \<open>.\<close> components are dropped.
\<close>

definition segment_root :: "string \<Rightarrow> string" where
  "segment_root seg =
     (if take 1 seg = ''/'' then
        (if take 2 seg = ''//'' \<and> take 3 seg \<noteq> ''///'' then ''//'' else ''/'')
      else '''')"

definition segment_parts :: "string \<Rightarrow> string list" where
  "segment_parts seg = filter (\<lambda>x. x \<noteq> '''' \<and> x \<noteq> ''.'') (split_on CHR ''/'' seg)"

text \<open>\<open>base / seg\<close>: an absolute segment replaces the base.\<close>

definition truediv :: "path \<Rightarrow> string \<Rightarrow> path" where
  "truediv base seg =
     (if segment_root seg \<noteq> '''' then \<lparr>root = segment_root seg, parts = segment_parts seg\<rparr>
      else \<lparr>root = root base, parts = parts base @ segment_parts seg\<rparr>)"

definition name :: "path \<Rightarrow> string" where
  "name p = (if parts p = [] then '''' else last (parts p))"

definition parent :: "path \<Rightarrow> path" where
  "parent p = \<lparr>root = root p, parts = butlast (parts p)\<rparr>"

text \<open>
  \<open>Path.suffix\<close>: \<open>i = name.rfind('.')\<close>; the suffix is \<open>name[i:]\<close> if
  \<open>0 < i < len(name) - 1\<close> and the empty string otherwise.
\<close>

definition suffix :: "path \<Rightarrow> string" where
  "suffix p =
     (case rfind CHR ''.'' (name p) 0 (length (name p)) of
        None \<Rightarrow> ''''
      | Some i \<Rightarrow> if 0 < i \<and> i + 1 < length (name p) then drop i (name p) else '''')"

text \<open>
  \<open>Path.with_suffix(suffix)\<close>: raises \<open>ValueError\<close> for a suffix holding a
  separator, a non-empty suffix not starting with a dot, the suffix \<open>.\<close>, and
  for a path with an empty name; otherwise replaces the old suffix of the name,
  or appends when there is none.
\<close>

definition with_suffix :: "path \<Rightarrow> string \<Rightarrow> error + path" where
  "with_suffix p sfx =
     (if CHR ''/'' \<in> set sfx then Inl ValueError
      else if (sfx \<noteq> '''' \<and> take 1 sfx \<noteq> ''.'') \<or> sfx = ''.'' then Inl ValueError
      else if name p = '''' then Inl ValueError
      else
        let old_suffix = suffix p;
            new_name = (if old_suffix = '''' then name p @ sfx
                        else take (length (name p) - length old_suffix) (name p) @ sfx)
        in Inr \<lparr>root = root p, parts = butlast (parts p) @ [new_name]\<rparr>)"

section \<open>Cache manager: key to path\<close>

definition CACHE_DIR_NAME :: string where
  "CACHE_DIR_NAME = ''audio_cache''"

text \<open>
  \<open>CACHE_DIR_PATH = Path(__file__).resolve().parent.parent / CACHE_DIR_NAME\<close>;
  the resolved project directory is the parameter \<open>proj\<close>.
\<close>

definition CACHE_DIR_PATH :: "path \<Rightarrow> path" where
  "CACHE_DIR_PATH proj = truediv proj CACHE_DIR_NAME"

definition get_path_from_key :: "path \<Rightarrow> string \<Rightarrow> path" where
  "get_path_from_key proj key = truediv (CACHE_DIR_PATH proj) (key @ ''.mp3'')"

text \<open>The lock and temp paths as \<open>read_stream\<close> and \<open>generate_and_cache\<close> derive them.\<close>

definition lock_path_of :: "path \<Rightarrow> error + path" where
  "lock_path_of final_path = with_suffix final_path ''.lock''"

definition temp_path_of :: "path \<Rightarrow> error + path" where
  "temp_path_of final_path = with_suffix final_path ''.mp3.tmp''"

section \<open>Speech engine: configuration and validation\<close>

definition TEXT_CHUNK_SIZE :: nat where
  "TEXT_CHUNK_SIZE = 2500"

definition QUEUE_MAX_SIZE :: nat where
  "QUEUE_MAX_SIZE = 100"

text \<open>
  The pattern \<open>^[+-]\d{1,3}%$\<close> under \<open>re.match\<close>: a sign, one to three
  digits, a percent sign, and then \<open>$\<close>, which in Python matches at the end
  of the string and also just before a newline that ends the string.  On the
  strings of this model (code points below 256) \<open>\d\<close> is \<open>0\<close> to \<open>9\<close>.
\<close>

definition is_digit :: "char \<Rightarrow> bool" where
  "is_digit c = (c \<in> set ''0123456789'')"

definition at_dollar :: "string \<Rightarrow> bool" where
  "at_dollar rest = (rest = [] \<or> rest = [CHR 0x0A])"

definition re_match_percent :: "string \<Rightarrow> bool" where
  "re_match_percent v =
     (case v of
        [] \<Rightarrow> False
      | sign # r \<Rightarrow>
          (sign = CHR ''+'' \<or> sign = CHR ''-'') \<and>
          (\<exists>n \<in> {1, 2, 3}.
              n \<le> length r \<and> list_all is_digit (take n r) \<and>
              take 1 (drop n r) = ''%'' \<and> at_dollar (drop (Suc n) r)))"

text \<open>\<open>_validate_percent_string\<close>; the value is a \<open>str\<close>, so \<open>isinstance\<close> holds.\<close>

definition validate_percent_string :: "string \<Rightarrow> error + string" where
  "validate_percent_string v = (if \<not> re_match_percent v then Inl ValueError else Inr v)"

record TTSEngine =
  voice :: string
  rate :: string
  volume :: string

definition TTSEngine_init :: "string \<Rightarrow> string \<Rightarrow> string \<Rightarrow> error + TTSEngine" where
  "TTSEngine_init vo ra vol =
     (case validate_percent_string ra of
        Inl e \<Rightarrow> Inl e
      | Inr r \<Rightarrow>
          (case validate_percent_string vol of
             Inl e \<Rightarrow> Inl e
           | Inr v \<Rightarrow> Inr \<lparr>voice = vo, rate = r, volume = v\<rparr>))"

text \<open>
  The signed-percentage format in the words of the specification: a \<open>+\<close> or
  \<open>-\<close> sign, one to three digits, then \<open>%\<close>, and nothing else.
\<close>

definition is_signed_percentage :: "string \<Rightarrow> bool" where
  "is_signed_percentage v =
     (case v of
        [] \<Rightarrow> False
      | sign # r \<Rightarrow>
          (sign = CHR ''+'' \<or> sign = CHR ''-'') \<and> r \<noteq> [] \<and> last r = CHR ''%'' \<and>
          1 \<le> length (butlast r) \<and> length (butlast r) \<le> 3 \<and> list_all is_digit (butlast r))"

section \<open>Speech engine: chunking\<close>

definition NEWLINE :: nat where
  "NEWLINE = 10"

definition SPACE :: nat where
  "SPACE = 32"

text \<open>\<open>str.isspace\<close> on one code point, and \<open>str.strip()\<close>.\<close>

definition isspace :: "nat \<Rightarrow> bool" where
  "isspace c =
     (c \<in> {9, 10, 11, 12, 13, 28, 29, 30, 31, 32, 133, 160, 5760,
            8232, 8233, 8239, 8287, 12288} \<or> (8192 \<le> c \<and> c \<le> 8202))"

definition strip :: "ustr \<Rightarrow> ustr" where
  "strip s = rev (dropWhile isspace (rev (dropWhile isspace s)))"

text \<open>
  The inner \<open>while start < len(p)\<close> loop of \<open>_chunk_text\<close> for a paragraph that
  is at least as long as the limit \<open>L\<close>: the pieces it yields, from \<open>start\<close>.
  \<open>p[start:end]\<close> is \<open>take (end - start) (drop start p)\<close>; Python clamps a
  slice end beyond the string, as \<open>take\<close> does.
\<close>

definition cut_end :: "nat \<Rightarrow> ustr \<Rightarrow> nat \<Rightarrow> nat" where
  "cut_end L p start =
     (case rfind SPACE p start (start + L) of
        None \<Rightarrow> start + L
      | Some e \<Rightarrow> if e \<le> start then start + L else e)"

function force_split :: "nat \<Rightarrow> ustr \<Rightarrow> nat \<Rightarrow> ustr list" where
  "force_split L p start =
     (if start < length p then
        take (cut_end L p start - start) (drop start p) # force_split L p (cut_end L p start + 1)
      else [])"
  by pat_completeness auto
termination
  by (relation "measure (\<lambda>(L, p, start). length p - start)")
     (auto simp: cut_end_def split: option.splits)

declare force_split.simps [simp del]

text \<open>
  The \<open>for p in paragraphs\<close> loop with the accumulator \<open>current_chunk\<close>, and
  the final \<open>if current_chunk.strip(): yield current_chunk\<close>.
\<close>

fun chunk_loop :: "nat \<Rightarrow> ustr \<Rightarrow> ustr list \<Rightarrow> ustr list" where
  "chunk_loop L current_chunk [] = (if strip current_chunk \<noteq> [] then [current_chunk] else [])"
| "chunk_loop L current_chunk (p # ps) =
     (if length p \<ge> L then
        (if current_chunk \<noteq> [] then [current_chunk] else []) @ force_split L p 0 @ chunk_loop L [] ps
      else if length current_chunk + length p + 1 < L then
        chunk_loop L (current_chunk @ p @ [NEWLINE]) ps
      else
        current_chunk # chunk_loop L (p @ [NEWLINE]) ps)"

definition chunk_text_limit :: "nat \<Rightarrow> ustr \<Rightarrow> ustr list" where
  "chunk_text_limit L text = (if text = [] then [] else chunk_loop L [] (split_on NEWLINE text))"

definition chunk_text :: "ustr \<Rightarrow> ustr list" where
  "chunk_text text = chunk_text_limit TEXT_CHUNK_SIZE text"

section \<open>Speech engine: the bounded queue\<close>

text \<open>
  \<open>queue.Queue(maxsize=QUEUE_MAX_SIZE)\<close> as the list of its items, oldest
  first.  An item is an audio frame, an exception object or the \<open>None\<close> that
  ends the stream.
\<close>

datatype qitem = Audio bytes | Failure error | Sentinel

datatype qerror = Full | Empty

definition put_nowait :: "qitem list \<Rightarrow> qitem \<Rightarrow> qerror + qitem list" where
  "put_nowait q item = (if QUEUE_MAX_SIZE \<le> length q then Inl Full else Inr (q @ [item]))"

definition get_nowait :: "qitem list \<Rightarrow> qerror + qitem \<times> qitem list" where
  "get_nowait q = (case q of [] \<Rightarrow> Inl Empty | x # r \<Rightarrow> Inr (x, r))"

text \<open>
  \<open>audio_queue.put(item)\<close>, the blocking call without a timeout: on a full
  queue it does not return until another thread removes an item; \<open>None\<close> is
  the call that has not returned.
\<close>

definition put :: "qitem list \<Rightarrow> qitem \<Rightarrow> qitem list option" where
  "put q item = (if QUEUE_MAX_SIZE \<le> length q then None else Some (q @ [item]))"

text \<open>
  \<open>_safe_put\<close>: \<open>queue.Full\<close> of the first attempt is caught, \<open>queue.Empty\<close>
  of the discard is swallowed, \<open>queue.Full\<close> of the retry is not caught.
\<close>

definition safe_put :: "qitem list \<Rightarrow> qitem \<Rightarrow> qerror + qitem list" where
  "safe_put q item =
     (case put_nowait q item of
        Inr q' \<Rightarrow> Inr q'
      | Inl _ \<Rightarrow>
          (case get_nowait q of
             Inl _ \<Rightarrow> Inr q
           | Inr (_, q1) \<Rightarrow> put_nowait q1 item))"

section \<open>Speech engine: producer and consumer\<close>

text \<open>
  What the synthesis service does for one chunk of text under
  \<open>asyncio.wait_for\<close>: the events \<open>communicate.stream()\<close> delivers, and
  whether the call completes, runs into the timeout or raises.
\<close>

datatype event = AudioEvent bytes | OtherEvent

datatype ending = Completed | TimedOut | Raised

type_synonym synth = "ustr \<Rightarrow> string \<Rightarrow> string \<Rightarrow> string \<Rightarrow> event list \<times> ending"

text \<open>
  The producer thread as the sequence of its actions: a call of the service,
  a blocking \<open>put\<close> of an audio frame, a \<open>_safe_put\<close> of an exception or of the
  final \<open>None\<close>.
\<close>

datatype action = Call ustr | Put qitem | SafePut qitem

fun stream_and_queue_chunk :: "event list \<Rightarrow> action list" where
  "stream_and_queue_chunk [] = []"
| "stream_and_queue_chunk (AudioEvent d # evs) = Put (Audio d) # stream_and_queue_chunk evs"
| "stream_and_queue_chunk (OtherEvent # evs) = stream_and_queue_chunk evs"

fun produce_audio :: "synth \<Rightarrow> string \<Rightarrow> string \<Rightarrow> string \<Rightarrow> ustr list \<Rightarrow> action list" where
  "produce_audio sy vo ra vol [] = [SafePut Sentinel]"
| "produce_audio sy vo ra vol (text_chunk # rest) =
     (if strip text_chunk = [] then produce_audio sy vo ra vol rest
      else
        Call text_chunk # stream_and_queue_chunk (fst (sy text_chunk vo ra vol)) @
          (case snd (sy text_chunk vo ra vol) of
             Completed \<Rightarrow> produce_audio sy vo ra vol rest
           | TimedOut \<Rightarrow> [SafePut (Failure TTSEngineError), SafePut Sentinel]
           | Raised \<Rightarrow> [SafePut (Failure TTSEngineError), SafePut Sentinel]))"

text \<open>
  Producer and consumer run concurrently; \<open>sched\<close> says at each step whether
  the producer moves first.  A producer that cannot move (finished, or in a
  blocking \<open>put\<close> on a full queue) leaves the step to the consumer, and an
  empty queue leaves it to the producer.  The consumer's \<open>get\<close> yields an audio
  frame, stops at \<open>None\<close>, raises an exception item, and raises a
  \<open>TTSEngineError\<close> when the queue stays empty with the producer gone.  The
  result is what the consumer yields, what it raises, and the service calls made
  until it stopped.
\<close>

definition producer_ready :: "action list \<Rightarrow> qitem list \<Rightarrow> bool" where
  "producer_ready acts q =
     (case acts of
        [] \<Rightarrow> False
      | Put _ # _ \<Rightarrow> length q < QUEUE_MAX_SIZE
      | _ \<Rightarrow> True)"

definition after_safe_put :: "qitem list \<Rightarrow> qitem \<Rightarrow> qitem list" where
  "after_safe_put q item = (case safe_put q item of Inr q' \<Rightarrow> q' | Inl _ \<Rightarrow> tl q)"

function run_pipeline ::
  "(nat \<Rightarrow> bool) \<Rightarrow> nat \<Rightarrow> action list \<Rightarrow> qitem list \<Rightarrow> bytes list \<times> error option \<times> ustr list" where
  "run_pipeline sched n acts q =
     (if producer_ready acts q \<and> (sched n \<or> q = []) then
        (case acts of
           [] \<Rightarrow> ([], Some TTSEngineError, [])
         | Call c # rest \<Rightarrow>
             (case run_pipeline sched (Suc n) rest q of (ys, e, cs) \<Rightarrow> (ys, e, c # cs))
         | Put item # rest \<Rightarrow> run_pipeline sched (Suc n) rest (q @ [item])
         | SafePut item # rest \<Rightarrow> run_pipeline sched (Suc n) rest (after_safe_put q item))
      else
        (case q of
           [] \<Rightarrow> ([], Some TTSEngineError, [])
         | Sentinel # q' \<Rightarrow> ([], None, [])
         | Failure e # q' \<Rightarrow> ([], Some e, [])
         | Audio b # q' \<Rightarrow>
             (case run_pipeline sched (Suc n) acts q' of (ys, e, cs) \<Rightarrow> (b # ys, e, cs))))"
  by pat_completeness auto
termination
  by (relation "measure (\<lambda>(sched, n, acts, q). 2 * length acts + length q)")
     (auto simp: after_safe_put_def safe_put_def put_nowait_def get_nowait_def
        split: sum.splits list.splits prod.splits if_splits)

declare run_pipeline.simps [simp del]

record stream_result =
  yielded :: "bytes list"
  raised :: "error option"
  queue_created :: bool
  thread_started :: bool
  synth_calls :: "ustr list"

text \<open>
  \<open>TTSEngine.stream(text, rate, volume)\<close> run to its end.  An override that is
  \<open>None\<close> or empty is falsy and falls back to the engine's value; another
  override is validated first.
\<close>

definition final_setting :: "string option \<Rightarrow> string \<Rightarrow> error + string" where
  "final_setting override own =
     (case override of
        None \<Rightarrow> Inr own
      | Some v \<Rightarrow> if v = [] then Inr own else validate_percent_string v)"

definition stream ::
  "TTSEngine \<Rightarrow> synth \<Rightarrow> (nat \<Rightarrow> bool) \<Rightarrow> ustr \<Rightarrow> string option \<Rightarrow> string option \<Rightarrow> stream_result" where
  "stream self sy sched text rate_arg volume_arg =
     (if text = [] \<or> strip text = [] then
        \<lparr>yielded = [], raised = None, queue_created = False, thread_started = False,
         synth_calls = []\<rparr>
      else
        (case final_setting rate_arg (rate self) of
           Inl e \<Rightarrow> \<lparr>yielded = [], raised = Some e, queue_created = False,
                     thread_started = False, synth_calls = []\<rparr>
         | Inr final_rate \<Rightarrow>
             (case final_setting volume_arg (volume self) of
                Inl e \<Rightarrow> \<lparr>yielded = [], raised = Some e, queue_created = False,
                          thread_started = False, synth_calls = []\<rparr>
              | Inr final_volume \<Rightarrow>
                  (case run_pipeline sched 0
                          (produce_audio sy (voice self) final_rate final_volume (chunk_text text)) []
                   of (ys, e, cs) \<Rightarrow>
                     \<lparr>yielded = ys, raised = e, queue_created = True, thread_started = True,
                      synth_calls = cs\<rparr>))))"

section \<open>Cache manager: cleanup\<close>

text \<open>
  The three settings read from the environment, with their defaults.  Times
  (\<open>time.time()\<close>, \<open>st_mtime\<close>) are Python floats; they are real numbers
  here, sizes in bytes are integers.
\<close>

record config =
  CACHE_MAX_AGE_DAYS :: int
  CACHE_MAX_SIZE_MB :: int
  CACHE_CLEANUP_TARGET_PERCENT :: int

definition default_config :: config where
  "default_config =
     \<lparr>CACHE_MAX_AGE_DAYS = 7, CACHE_MAX_SIZE_MB = 400, CACHE_CLEANUP_TARGET_PERCENT = 70\<rparr>"

definition CACHE_MAX_SIZE_BYTES :: "config \<Rightarrow> int" where
  "CACHE_MAX_SIZE_BYTES cfg = CACHE_MAX_SIZE_MB cfg * 1024 * 1024"

text \<open>
  \<open>CACHE_CLEANUP_TARGET_BYTES\<close> is the float that the module computes once, when
  it is imported, as \<open>CACHE_MAX_SIZE_BYTES * (CACHE_CLEANUP_TARGET_PERCENT / 100)\<close>,
  with the rounding of float division and multiplication: for 400 MB and 70
  percent it is exactly 293601280.0, for 55 percent it is
  230686720.00000003, above the product of the integers.  The size pass only
  compares the running total with it, so it is a parameter of the size pass
  here: the number the float stands for, or an infinity when the product
  overflows (a product of two finite floats is never a NaN).  Python compares
  an \<open>int\<close> with a \<open>float\<close> exactly, without rounding the \<open>int\<close>.
\<close>

datatype float = Finite real | PlusInfinity | MinusInfinity

fun int_lt_float :: "int \<Rightarrow> float \<Rightarrow> bool" where
  "int_lt_float n (Finite x) = (of_int n < x)"
| "int_lt_float n PlusInfinity = True"
| "int_lt_float n MinusInfinity = False"

definition SECONDS_IN_A_DAY :: int where
  "SECONDS_IN_A_DAY = 86400"

definition STALE_TEMP_FILE_SECONDS :: int where
  "STALE_TEMP_FILE_SECONDS = 3600"

text \<open>
  The outcome of a system call: its value, \<open>FileNotFoundError\<close>, or another
  \<open>OSError\<close>.  A directory entry carries what the calls made on it return
  during the run: \<open>is_file()\<close>, \<open>stat()\<close> (size and modification time) and
  \<open>unlink()\<close>; files deleted by other processes and entries that cannot be
  deleted show up as failing calls.
\<close>

datatype 'a io = Ok 'a | NotFound | OsError

record dirent =
  d_path :: path
  d_is_file :: bool
  d_stat :: "(int \<times> real) io"
  d_unlink :: "unit io"

definition st_size :: "dirent \<Rightarrow> int" where
  "st_size e = (case d_stat e of Ok (sz, m) \<Rightarrow> sz | _ \<Rightarrow> 0)"

definition st_mtime :: "dirent \<Rightarrow> real" where
  "st_mtime e = (case d_stat e of Ok (sz, m) \<Rightarrow> m | _ \<Rightarrow> 0)"

subsection \<open>The age pass\<close>

text \<open>
  The result of \<open>_cleanup_by_age\<close>: its return value \<open>deleted_count\<close>, and for
  the statements below the entries on which \<open>unlink\<close> was called, those it
  deleted, and those for which an error was logged.
\<close>

record age_result =
  deleted_count :: nat
  attempted :: "dirent list"
  unlinked :: "dirent list"
  logged :: "dirent list"

definition is_stale_temp_file :: "real \<Rightarrow> dirent \<Rightarrow> real \<Rightarrow> bool" where
  "is_stale_temp_file now e mtime =
     (suffix (d_path e) \<in> {''.tmp'', ''.lock''} \<and> mtime < now - of_int STALE_TEMP_FILE_SECONDS)"

definition is_old_cache_file :: "config \<Rightarrow> real \<Rightarrow> real \<Rightarrow> bool" where
  "is_old_cache_file cfg now mtime =
     (mtime < now - of_int (CACHE_MAX_AGE_DAYS cfg * SECONDS_IN_A_DAY))"

fun age_loop :: "config \<Rightarrow> real \<Rightarrow> dirent list \<Rightarrow> age_result" where
  "age_loop cfg now [] = \<lparr>deleted_count = 0, attempted = [], unlinked = [], logged = []\<rparr>"
| "age_loop cfg now (e # es) =
     (let r = age_loop cfg now es in
      case d_stat e of
        NotFound \<Rightarrow> r
      | OsError \<Rightarrow> r\<lparr>logged := e # logged r\<rparr>
      | Ok (sz, mtime) \<Rightarrow>
          if is_old_cache_file cfg now mtime \<or> is_stale_temp_file now e mtime then
            (case d_unlink e of
               Ok u \<Rightarrow> r\<lparr>deleted_count := Suc (deleted_count r),
                          attempted := e # attempted r, unlinked := e # unlinked r\<rparr>
             | NotFound \<Rightarrow> r\<lparr>attempted := e # attempted r\<rparr>
             | OsError \<Rightarrow> r\<lparr>attempted := e # attempted r, logged := e # logged r\<rparr>)
          else r)"

text \<open>
  \<open>_cleanup_by_age\<close> on what \<open>CACHE_DIR_PATH.iterdir()\<close> gives; when the
  directory cannot be scanned nothing is deleted.
\<close>

definition cleanup_by_age :: "config \<Rightarrow> real \<Rightarrow> dirent list io \<Rightarrow> age_result" where
  "cleanup_by_age cfg now listing =
     (case listing of
        Ok es \<Rightarrow> age_loop cfg now es
      | _ \<Rightarrow> \<lparr>deleted_count = 0, attempted = [], unlinked = [], logged = []\<rparr>)"

subsection \<open>The size pass\<close>

text \<open>The first loop: \<open>files_to_scan\<close> and \<open>total_size\<close>.\<close>

fun scan :: "dirent list \<Rightarrow> dirent list \<times> int" where
  "scan [] = ([], 0)"
| "scan (e # es) =
     (if \<not> d_is_file e then scan es
      else
        (case d_stat e of
           Ok (sz, m) \<Rightarrow> (case scan es of (files, tot) \<Rightarrow> (e # files, sz + tot))
         | _ \<Rightarrow> scan es))"

record size_result =
  s_deleted_count :: nat
  s_attempted :: "dirent list"
  s_unlinked :: "dirent list"
  s_total :: int

text \<open>
  The second loop over the sorted entries, from the running total
  \<open>total_size\<close>: it breaks when the total is below the target;
  \<open>FileNotFoundError\<close> still subtracts the size, another \<open>OSError\<close> does not.
\<close>

fun size_loop :: "float \<Rightarrow> int \<Rightarrow> dirent list \<Rightarrow> size_result" where
  "size_loop target total_size [] =
     \<lparr>s_deleted_count = 0, s_attempted = [], s_unlinked = [], s_total = total_size\<rparr>"
| "size_loop target total_size (f # fs) =
     (if int_lt_float total_size target then
        \<lparr>s_deleted_count = 0, s_attempted = [], s_unlinked = [], s_total = total_size\<rparr>
      else
        (case d_unlink f of
           Ok u \<Rightarrow>
             (let r = size_loop target (total_size - st_size f) fs in
              r\<lparr>s_deleted_count := Suc (s_deleted_count r),
                s_attempted := f # s_attempted r, s_unlinked := f # s_unlinked r\<rparr>)
         | NotFound \<Rightarrow>
             (let r = size_loop target (total_size - st_size f) fs in
              r\<lparr>s_attempted := f # s_attempted r\<rparr>)
         | OsError \<Rightarrow>
             (let r = size_loop target total_size fs in
              r\<lparr>s_attempted := f # s_attempted r\<rparr>)))"

text \<open>
  \<open>_cleanup_by_size\<close> on what \<open>CACHE_DIR_PATH.iterdir()\<close> gives, with the value
  of the module's float \<open>CACHE_CLEANUP_TARGET_BYTES\<close>.
  \<open>files_to_scan.sort(key=lambda x: x['mtime'])\<close> is a stable sort, as \<open>sort_key\<close> is.
\<close>

definition cleanup_by_size :: "config \<Rightarrow> float \<Rightarrow> dirent list io \<Rightarrow> size_result" where
  "cleanup_by_size cfg CACHE_CLEANUP_TARGET_BYTES listing =
     (case listing of
        Ok es \<Rightarrow>
          (case scan es of
             (files_to_scan, total_size) \<Rightarrow>
               if total_size < CACHE_MAX_SIZE_BYTES cfg then
                 \<lparr>s_deleted_count = 0, s_attempted = [], s_unlinked = [], s_total = total_size\<rparr>
               else size_loop CACHE_CLEANUP_TARGET_BYTES total_size
                      (sort_key st_mtime files_to_scan))
      | _ \<Rightarrow> \<lparr>s_deleted_count = 0, s_attempted = [], s_unlinked = [], s_total = 0\<rparr>)"

text \<open>
  The running total after the deletions attempted on \<open>fs\<close>: the sizes of the
  entries that were deleted or found missing are subtracted.
\<close>

definition running_total :: "int \<Rightarrow> dirent list \<Rightarrow> int" where
  "running_total total_size fs =
     total_size - sum_list (map st_size (filter (\<lambda>f. d_unlink f \<noteq> OsError) fs))"

section \<open>Application: the read endpoint\<close>

text \<open>
  The cache directory as the regular files in it and their contents.
  Modification times are not part of this state, so \<open>touch_cache_file\<close> leaves
  it as it is.
\<close>

type_synonym filesystem = "path \<rightharpoonup> bytes"

definition check_cache_exists :: "filesystem \<Rightarrow> path \<Rightarrow> bool" where
  "check_cache_exists fs file_path = (file_path \<in> dom fs)"

definition touch_cache_file :: "filesystem \<Rightarrow> path \<Rightarrow> filesystem" where
  "touch_cache_file fs file_path = fs"

text \<open>
  What the application is started with and what its collaborators return
  during a request: the project directory, whether \<open>create_tts_engine\<close> gave
  an engine, the MD5 hex digest, \<open>MAX_CONTENT_LENGTH\<close>, the outcome of
  \<open>get_metadata_with_cache(url)\<close>, what \<open>tts_engine.stream(content)\<close> yields and
  raises, and which file operations fail with an \<open>OSError\<close>.
\<close>

datatype fetched = Fetched ustr | NoContent | FetchRaised

record app =
  project_dir :: path
  tts_engine_up :: bool
  md5_hexdigest :: "string \<Rightarrow> string"
  MAX_CONTENT_LENGTH :: nat
  get_metadata_with_cache :: "string \<Rightarrow> fetched"
  tts_stream :: "ustr \<Rightarrow> bytes list \<times> error option"
  touch_fails :: bool
  open_fails :: bool
  write_fails :: "nat \<Rightarrow> bool"
  rename_fails :: bool

subsection \<open>The generator \<open>generate_and_cache\<close>\<close>

text \<open>
  A generator object is its closure (\<open>final_path\<close>, \<open>content\<close>) and where it
  stands: not started, suspended at the \<open>yield\<close> after \<open>k\<close> frames with the
  temp file open, or finished.
\<close>

datatype gen_state = Created | Suspended nat | Finished

record generator =
  g_final_path :: path
  g_content :: ustr
  g_state :: gen_state

datatype resumed = Yield bytes | StopIteration | Raise error

text \<open>The \<open>finally\<close> block when \<open>success\<close> is false.\<close>

definition cleanup_temp :: "filesystem \<Rightarrow> path \<Rightarrow> filesystem" where
  "cleanup_temp fs temp_path = (if temp_path \<in> dom fs then fs(temp_path := None) else fs)"

text \<open>
  The body from the head of the \<open>for\<close> loop, with \<open>k\<close> frames written: write
  and yield the next frame; or, when the stream is exhausted, re-raise its
  error or rename the temp file to the final path.  Every exception passes
  through the \<open>finally\<close> block.
\<close>

definition resume_loop ::
  "app \<Rightarrow> generator \<Rightarrow> path \<Rightarrow> nat \<Rightarrow> filesystem \<Rightarrow> resumed \<times> generator \<times> filesystem" where
  "resume_loop a g temp_path k fs =
     (case tts_stream a (g_content g) of
        (frames, err) \<Rightarrow>
          if k < length frames then
            (if write_fails a k then
               (Raise OSError, g\<lparr>g_state := Finished\<rparr>, cleanup_temp fs temp_path)
             else
               (Yield (frames ! k), g\<lparr>g_state := Suspended (Suc k)\<rparr>,
                (case fs temp_path of
                   Some written \<Rightarrow> fs(temp_path \<mapsto> written @ frames ! k)
                 | None \<Rightarrow> fs)))
          else
            (case err of
               Some e \<Rightarrow> (Raise e, g\<lparr>g_state := Finished\<rparr>, cleanup_temp fs temp_path)
             | None \<Rightarrow>
                 (case fs temp_path of
                    None \<Rightarrow> (Raise FileNotFoundError, g\<lparr>g_state := Finished\<rparr>, fs)
                  | Some written \<Rightarrow>
                      if rename_fails a then
                        (Raise OSError, g\<lparr>g_state := Finished\<rparr>, cleanup_temp fs temp_path)
                      else
                        (StopIteration, g\<lparr>g_state := Finished\<rparr>,
                         (fs(temp_path := None))(g_final_path g \<mapsto> written)))))"

text \<open>\<open>next(gen)\<close>: run the generator to its next \<open>yield\<close>, its end or an exception.\<close>

definition gen_next :: "app \<Rightarrow> generator \<times> filesystem \<Rightarrow> resumed \<times> generator \<times> filesystem" where
  "gen_next a s =
     (case s of (g, fs) \<Rightarrow>
        (case g_state g of
           Finished \<Rightarrow> (StopIteration, g, fs)
         | Created \<Rightarrow>
             (case temp_path_of (g_final_path g) of
                Inl e \<Rightarrow> (Raise e, g\<lparr>g_state := Finished\<rparr>, fs)
              | Inr temp_path \<Rightarrow>
                  if open_fails a then
                    (Raise OSError, g\<lparr>g_state := Finished\<rparr>, cleanup_temp fs temp_path)
                  else resume_loop a g temp_path 0 (fs(temp_path \<mapsto> [])))
         | Suspended k \<Rightarrow>
             (case temp_path_of (g_final_path g) of
                Inl e \<Rightarrow> (Raise e, g\<lparr>g_state := Finished\<rparr>, fs)
              | Inr temp_path \<Rightarrow> resume_loop a g temp_path k fs)))"

text \<open>
  \<open>gen.close()\<close>, as on a client disconnect: \<open>GeneratorExit\<close> is raised at the
  \<open>yield\<close> and the \<open>finally\<close> block runs; a generator that was never started
  runs nothing.
\<close>

definition gen_close :: "generator \<times> filesystem \<Rightarrow> generator \<times> filesystem" where
  "gen_close s =
     (case s of (g, fs) \<Rightarrow>
        (case g_state g of
           Created \<Rightarrow> (g\<lparr>g_state := Finished\<rparr>, fs)
         | Finished \<Rightarrow> (g, fs)
         | Suspended k \<Rightarrow>
             (case temp_path_of (g_final_path g) of
                Inl e \<Rightarrow> (g\<lparr>g_state := Finished\<rparr>, fs)
              | Inr temp_path \<Rightarrow> (g\<lparr>g_state := Finished\<rparr>, cleanup_temp fs temp_path))))"

text \<open>
  The server iterating the response: at most \<open>n\<close> calls of \<open>next\<close>.  The result
  is the frames sent, and whether the generator is still suspended, has ended,
  or has raised.
\<close>

datatype progress = Running | Ended | Errored error

fun pull ::
  "app \<Rightarrow> nat \<Rightarrow> generator \<times> filesystem \<Rightarrow> bytes list \<times> progress \<times> generator \<times> filesystem" where
  "pull a 0 s = ([], Running, s)"
| "pull a (Suc n) s =
     (case gen_next a s of
        (Yield b, s') \<Rightarrow> (case pull a n s' of (bs, st, s'') \<Rightarrow> (b # bs, st, s''))
      | (StopIteration, s') \<Rightarrow> ([], Ended, s')
      | (Raise e, s') \<Rightarrow> ([], Errored e, s'))"

subsection \<open>The view function \<open>read_stream\<close>\<close>

datatype response =
    Json nat
  | StreamFromCache path
  | StreamGenerated generator

definition TRUNCATION_NOTICE :: ustr where
  "TRUNCATION_NOTICE =
     [10, 10, 66, 111, 116, 32, 110, 243, 105, 58, 32, 67, 104, 432, 417, 110, 103, 32, 110,
      224, 121, 32, 113, 117, 225, 32, 100, 224, 105, 44, 32, 98, 111, 116, 32, 99, 104, 7881,
      32, 273, 7885, 99, 32, 109, 7897, 116, 32, 112, 104, 7847, 110, 32, 116, 104, 244, 105,
      32, 110, 104, 233, 46]"

definition truncate_content :: "app \<Rightarrow> ustr \<Rightarrow> ustr" where
  "truncate_content a content =
     (if length content > MAX_CONTENT_LENGTH a
      then take (MAX_CONTENT_LENGTH a) content @ TRUNCATION_NOTICE
      else content)"

text \<open>The outer \<open>finally\<close> block of \<open>read_stream\<close>.\<close>

definition release_lock :: "filesystem \<Rightarrow> path \<Rightarrow> filesystem" where
  "release_lock fs lock_path = (if lock_path \<in> dom fs then fs(lock_path := None) else fs)"

text \<open>
  \<open>read_stream\<close> up to its \<open>return\<close>: the response object and the cache
  directory it leaves.  A streaming response holds the generator, which the
  server starts only after the view function has returned.  An exception that
  leaves the function is the status 500.
\<close>

definition read_stream :: "app \<Rightarrow> filesystem \<Rightarrow> string \<Rightarrow> response \<times> filesystem" where
  "read_stream a fs url =
     (if url = [] then (Json 400, fs)
      else if \<not> tts_engine_up a then (Json 503, fs)
      else
        let cache_key = md5_hexdigest a url;
            final_path = get_path_from_key (project_dir a) cache_key
        in
          if check_cache_exists fs final_path then
            (StreamFromCache final_path, touch_cache_file fs final_path)
          else
            (case lock_path_of final_path of
               Inl e \<Rightarrow> (Json 500, fs)
             | Inr lock_path \<Rightarrow>
                 if lock_path \<in> dom fs then (Json 429, fs)
                 else if touch_fails a then (Json 500, release_lock fs lock_path)
                 else
                   (case get_metadata_with_cache a url of
                      FetchRaised \<Rightarrow> (Json 500, release_lock (fs(lock_path \<mapsto> [])) lock_path)
                    | NoContent \<Rightarrow> (Json 422, release_lock (fs(lock_path \<mapsto> [])) lock_path)
                    | Fetched content \<Rightarrow>
                        if content = [] then
                          (Json 422, release_lock (fs(lock_path \<mapsto> [])) lock_path)
                        else
                          (StreamGenerated
                             \<lparr>g_final_path = final_path,
                              g_content = truncate_content a content,
                              g_state = Created\<rparr>,
                           release_lock (fs(lock_path \<mapsto> [])) lock_path))))"

section \<open>Facts about strings and paths\<close>

lemma split_on_not_Nil: "split_on c xs \<noteq> []"
  by (induction xs) (auto split: list.splits)

lemma split_on_no_sep: "c \<notin> set xs \<Longrightarrow> split_on c xs = [xs]"
  by (induction xs) auto

lemma rscan_found:
  "lo \<le> i \<Longrightarrow> i < k \<Longrightarrow> s ! i = c \<Longrightarrow> (\<forall>j. i < j \<and> j < k \<longrightarrow> s ! j \<noteq> c)
   \<Longrightarrow> rscan c s lo k = Some i"
proof (induction k)
  case 0
  then show ?case by simp
next
  case (Suc k)
  show ?case
  proof (cases "i = k")
    case True
    with Suc.prems show ?thesis by simp
  next
    case False
    with Suc.prems have ik: "i < k" by simp
    from Suc.prems ik have nk: "s ! k \<noteq> c" by simp
    from Suc.prems have "\<forall>j. i < j \<and> j < k \<longrightarrow> s ! j \<noteq> c" by simp
    with Suc.IH Suc.prems ik have "rscan c s lo k = Some i" by simp
    with nk ik Suc.prems show ?thesis by simp
  qed
qed

lemma rfind_last_occurrence:
  assumes "c \<notin> set ys"
  shows "rfind c (xs @ c # ys) 0 (length (xs @ c # ys)) = Some (length xs)"
proof -
  let ?s = "xs @ c # ys"
  have "rscan c ?s 0 (length ?s) = Some (length xs)"
  proof (rule rscan_found)
    show "\<forall>j. length xs < j \<and> j < length ?s \<longrightarrow> ?s ! j \<noteq> c"
    proof (intro allI impI)
      fix j assume j: "length xs < j \<and> j < length ?s"
      define d where "d = j - Suc (length xs)"
      from j have d: "j = length xs + Suc d" "d < length ys"
        unfolding d_def by (simp, simp, arith)
      then have "?s ! j = ys ! d" by (simp add: nth_append)
      moreover from d have "ys ! d \<in> set ys" by simp
      ultimately show "?s ! j \<noteq> c" using assms by auto
    qed
  qed simp_all
  then show ?thesis unfolding rfind_def by (simp only: min.idem)
qed

lemma name_get_path_from_key:
  "CHR ''/'' \<notin> set key \<Longrightarrow> name (get_path_from_key proj key) = key @ ''.mp3''"
  by (simp add: get_path_from_key_def truediv_def segment_root_def segment_parts_def
      split_on_no_sep name_def take_Suc split: list.splits)

lemma segment_root_no_sep: "CHR ''/'' \<notin> set key \<Longrightarrow> segment_root (key @ ''.mp3'') = []"
  by (cases key) (auto simp: segment_root_def)

lemma parts_get_path_from_key:
  "CHR ''/'' \<notin> set key \<Longrightarrow>
   get_path_from_key proj key =
     \<lparr>root = root (CACHE_DIR_PATH proj), parts = parts (CACHE_DIR_PATH proj) @ [key @ ''.mp3'']\<rparr>"
  by (simp add: get_path_from_key_def truediv_def segment_root_no_sep segment_parts_def
      split_on_no_sep)

lemma suffix_get_path_from_key:
  assumes "key \<noteq> []" "CHR ''/'' \<notin> set key"
  shows "suffix (get_path_from_key proj key) = ''.mp3''"
proof -
  have r: "rfind CHR ''.'' (key @ ''.mp3'') 0 (length (key @ ''.mp3'')) = Some (length key)"
    using rfind_last_occurrence [of "CHR ''.''" "''mp3''" key] by simp
  show ?thesis
    unfolding suffix_def name_get_path_from_key [OF assms(2)] r
    using assms(1) by simp
qed

lemma with_suffix_get_path_from_key:
  assumes "key \<noteq> []" "CHR ''/'' \<notin> set key"
    and sfx: "CHR ''/'' \<notin> set sfx" "take 1 sfx = ''.''" "sfx \<noteq> ''.''"
  shows "with_suffix (get_path_from_key proj key) sfx =
     Inr \<lparr>root = root (CACHE_DIR_PATH proj), parts = parts (CACHE_DIR_PATH proj) @ [key @ sfx]\<rparr>"
proof -
  have n: "name (get_path_from_key proj key) = key @ ''.mp3''"
    by (rule name_get_path_from_key [OF assms(2)])
  have s: "suffix (get_path_from_key proj key) = ''.mp3''"
    by (rule suffix_get_path_from_key [OF assms(1,2)])
  have p: "parts (get_path_from_key proj key) = parts (CACHE_DIR_PATH proj) @ [key @ ''.mp3'']"
    and r: "root (get_path_from_key proj key) = root (CACHE_DIR_PATH proj)"
    by (simp_all add: parts_get_path_from_key [OF assms(2)])
  from sfx have ne: "sfx \<noteq> []" by auto
  show ?thesis
    unfolding with_suffix_def n s p r using sfx ne by (simp add: Let_def)
qed

section \<open>Facts about the speech engine\<close>

lemma rscan_None: "c \<notin> set s \<Longrightarrow> k \<le> length s \<Longrightarrow> rscan c s lo k = None"
  by (induction k) auto

lemma rfind_None: "c \<notin> set s \<Longrightarrow> rfind c s lo hi = None"
  by (simp add: rfind_def rscan_None)

lemma rscan_bounds: "rscan c s lo k = Some i \<Longrightarrow> lo \<le> i \<and> i < k"
  by (induction k) (auto split: if_splits)

lemma cut_end_bounds: "start < cut_end L p start + 1 \<and> cut_end L p start \<le> start + L"
  by (auto simp: cut_end_def rfind_def split: option.splits dest!: rscan_bounds)

lemma force_split_length: "c \<in> set (force_split L p start) \<Longrightarrow> length c \<le> L"
proof (induction L p start rule: force_split.induct)
  case (1 L p start)
  show ?case
  proof (cases "start < length p")
    case True
    from 1(2) True have "c = take (cut_end L p start - start) (drop start p)
        \<or> c \<in> set (force_split L p (cut_end L p start + 1))"
      by (subst (asm) force_split.simps) simp
    then show ?thesis
    proof
      assume "c = take (cut_end L p start - start) (drop start p)"
      then show ?thesis using cut_end_bounds [of start L p] by auto
    next
      assume "c \<in> set (force_split L p (cut_end L p start + 1))"
      with 1(1) True show ?thesis by simp
    qed
  next
    case False
    with 1(2) show ?thesis by (subst (asm) force_split.simps) simp
  qed
qed

lemma chunk_loop_length:
  "length cur \<le> L \<Longrightarrow> c \<in> set (chunk_loop L cur ps) \<Longrightarrow> length c \<le> L"
proof (induction ps arbitrary: cur)
  case Nil
  then show ?case by (auto split: if_splits)
next
  case (Cons p ps)
  show ?case
  proof (cases "L \<le> length p")
    case True
    with Cons.prems have "c = cur \<or> c \<in> set (force_split L p 0) \<or> c \<in> set (chunk_loop L [] ps)"
      by (auto split: if_splits)
    then show ?thesis
      using Cons.prems(1) force_split_length Cons.IH [of "[]"] by auto
  next
    case False
    show ?thesis
    proof (cases "length cur + length p + 1 < L")
      case True
      with False Cons.prems have "c \<in> set (chunk_loop L (cur @ p @ [NEWLINE]) ps)" by simp
      moreover from True have "length (cur @ p @ [NEWLINE]) \<le> L" by simp
      ultimately show ?thesis using Cons.IH by blast
    next
      case F2: False
      with False Cons.prems have "c = cur \<or> c \<in> set (chunk_loop L (p @ [NEWLINE]) ps)" by auto
      moreover from False have "length (p @ [NEWLINE]) \<le> L" by simp
      ultimately show ?thesis using Cons.IH Cons.prems(1) by blast
    qed
  qed
qed

text \<open>The length bound of the chunks holds for every text and every limit.\<close>

lemma chunk_text_limit_length: "c \<in> set (chunk_text_limit L text) \<Longrightarrow> length c \<le> L"
  using chunk_loop_length [of "[]" L c "split_on NEWLINE text"]
  by (auto simp: chunk_text_limit_def split: if_splits)

lemma chunk_text_within_limit: "c \<in> set (chunk_text text) \<Longrightarrow> length c \<le> TEXT_CHUNK_SIZE"
  unfolding chunk_text_def by (rule chunk_text_limit_length)

lemma force_split_one_cut:
  assumes "SPACE \<notin> set p" "length p = Suc L" "0 < L"
  shows "force_split L p 0 = [take L p]"
proof -
  have ce: "cut_end L p 0 = L"
    using assms(1) by (simp add: cut_end_def rfind_None)
  have "force_split L p (Suc L) = []"
    using assms(2) by (subst force_split.simps) simp
  then show ?thesis
    using assms(2) by (subst force_split.simps) (simp add: ce)
qed

text \<open>
  A paragraph of \<open>L + 1\<close> characters without a space: the forced cut yields the
  first \<open>L\<close> characters, and \<open>start = end + 1\<close> steps over the last one.
\<close>

lemma chunk_text_limit_drops_char:
  assumes "c \<noteq> SPACE" "c \<noteq> NEWLINE" "0 < L"
  shows "chunk_text_limit L (replicate (Suc L) c) = [replicate L c]"
proof -
  let ?p = "replicate (Suc L) c"
  have sp: "split_on NEWLINE ?p = [?p]"
    using assms(2) by (intro split_on_no_sep) auto
  have fs: "force_split L ?p 0 = [take L ?p]"
    using assms(1,3) by (intro force_split_one_cut) auto
  have tk: "take L ?p = replicate L c" unfolding take_replicate by simp
  have "chunk_loop L [] [?p] = [replicate L c]"
    unfolding chunk_loop.simps fs tk by (simp add: strip_def)
  then show ?thesis
    unfolding chunk_text_limit_def sp by simp
qed

lemma strip_nonempty: "\<not> isspace c \<Longrightarrow> c \<in> set s \<Longrightarrow> strip s \<noteq> []"
proof -
  assume a: "\<not> isspace c" "c \<in> set s"
  then have "dropWhile isspace s \<noteq> []" by (auto simp: dropWhile_eq_Nil_conv)
  moreover have "c \<in> set (dropWhile isspace s)"
    using a by (induction s) auto
  ultimately show ?thesis
    using a by (auto simp: strip_def dropWhile_eq_Nil_conv)
qed

lemma strip_blank:
  assumes "\<forall>c \<in> set s. isspace c"
  shows "strip s = []"
proof -
  have d: "dropWhile isspace s = []"
    using assms by (simp add: dropWhile_eq_Nil_conv)
  show ?thesis unfolding strip_def d by simp
qed

text \<open>
  A first paragraph of \<open>L - 1\<close> characters does not fit beside the empty
  accumulator (\<open>0 + (L - 1) + 1 < L\<close> is false), and the accumulator is yielded
  as it is.
\<close>

lemma chunk_text_limit_empty_chunk:
  assumes "\<not> isspace c" "c \<noteq> NEWLINE" "0 < n"
  shows "chunk_text_limit (Suc n) (replicate n c) = [[], replicate n c @ [NEWLINE]]"
proof -
  let ?p = "replicate n c"
  have sp: "split_on NEWLINE ?p = [?p]"
    using assms(2) by (intro split_on_no_sep) auto
  have ne: "?p \<noteq> []" using assms(3) by simp
  have st: "strip (?p @ [NEWLINE]) \<noteq> []"
    using assms(1,3) by (intro strip_nonempty [of c]) auto
  have "chunk_loop (Suc n) [] [?p] = [[], ?p @ [NEWLINE]]"
    using st by simp
  then show ?thesis
    unfolding chunk_text_limit_def sp using ne by simp
qed

lemma letter_a: "\<not> isspace 97" "97 \<noteq> SPACE" "97 \<noteq> NEWLINE"
  by (simp_all add: isspace_def SPACE_def NEWLINE_def)

text \<open>
  On a queue within its capacity the retry inside \<open>_safe_put\<close> always finds
  room, and the queue stays within its capacity.
\<close>

lemma safe_put_returns:
  "length q \<le> QUEUE_MAX_SIZE \<Longrightarrow>
   \<exists>q'. safe_put q item = Inr q' \<and> length q' \<le> QUEUE_MAX_SIZE"
  by (auto simp: safe_put_def put_nowait_def get_nowait_def QUEUE_MAX_SIZE_def
      split: sum.splits list.splits)

lemma safe_put_full:
  "length q = QUEUE_MAX_SIZE \<Longrightarrow> safe_put q item = Inr (tl q @ [item])"
  by (cases q) (auto simp: safe_put_def put_nowait_def get_nowait_def QUEUE_MAX_SIZE_def)

lemma safe_put_room:
  "length q < QUEUE_MAX_SIZE \<Longrightarrow> safe_put q item = Inr (q @ [item])"
  by (simp add: safe_put_def put_nowait_def)

lemma stream_and_queue_chunk_puts:
  "a \<in> set (stream_and_queue_chunk evs) \<Longrightarrow> \<exists>d. a = Put (Audio d)"
  by (induction evs rule: stream_and_queue_chunk.induct) auto

lemma produce_audio_actions:
  "a \<in> set (produce_audio sy vo ra vol chunks) \<Longrightarrow>
     (\<exists>c. a = Call c) \<or> (\<exists>d. a = Put (Audio d)) \<or>
     a = SafePut (Failure TTSEngineError) \<or> a = SafePut Sentinel"
proof (induction chunks)
  case Nil
  then show ?case by simp
next
  case (Cons c cs)
  show ?case
  proof (cases "strip c = []")
    case True
    with Cons show ?thesis by simp
  next
    case False
    with Cons.prems have
      "a = Call c \<or> a \<in> set (stream_and_queue_chunk (fst (sy c vo ra vol)))
       \<or> a \<in> set (produce_audio sy vo ra vol cs)
       \<or> a = SafePut (Failure TTSEngineError) \<or> a = SafePut Sentinel"
      by (auto split: ending.splits)
    then show ?thesis
      using Cons.IH stream_and_queue_chunk_puts by blast
  qed
qed

text \<open>A text with a non-whitespace character does create the queue and start the producer.\<close>

lemma stream_nonblank_starts_producer:
  assumes "strip text \<noteq> []"
  shows "queue_created (stream self sy sched text None None)
       \<and> thread_started (stream self sy sched text None None)"
proof -
  from assms have "text \<noteq> []" by (auto simp: strip_def)
  with assms show ?thesis
    by (simp add: stream_def final_setting_def split: prod.splits)
qed

section \<open>Facts about the cleanup passes\<close>

lemma age_loop_attempted:
  "e \<in> set (attempted (age_loop cfg now es)) \<longleftrightarrow>
     e \<in> set es \<and> (\<exists>sz m. d_stat e = Ok (sz, m) \<and>
        (is_old_cache_file cfg now m \<or> is_stale_temp_file now e m))"
  by (induction es) (auto simp: Let_def split: io.splits prod.splits)

lemma age_loop_unlinked:
  "e \<in> set (unlinked (age_loop cfg now es)) \<longleftrightarrow>
     e \<in> set (attempted (age_loop cfg now es)) \<and> d_unlink e = Ok ()"
  by (induction es) (auto simp: Let_def split: io.splits prod.splits)

lemma age_loop_logged:
  "e \<in> set (logged (age_loop cfg now es)) \<longleftrightarrow>
     e \<in> set es \<and> (d_stat e = OsError \<or>
        (e \<in> set (attempted (age_loop cfg now es)) \<and> d_unlink e = OsError))"
  by (induction es) (auto simp: Let_def age_loop_attempted split: io.splits prod.splits)

lemma age_loop_count: "deleted_count (age_loop cfg now es) = length (unlinked (age_loop cfg now es))"
  by (induction es) (auto simp: Let_def split: io.splits prod.splits)

text \<open>
  The first loop keeps, in directory order, the entries that are files and
  whose \<open>stat\<close> succeeds, and adds up their sizes.
\<close>

lemma scan_files:
  "fst (scan es) = filter (\<lambda>e. d_is_file e \<and> (case d_stat e of Ok s \<Rightarrow> True | _ \<Rightarrow> False)) es"
proof (induction es)
  case Nil
  then show ?case by simp
next
  case (Cons e es)
  obtain files tot where s: "scan es = (files, tot)" by (cases "scan es")
  with Cons show ?case by (cases "d_stat e") auto
qed

lemma scan_total: "snd (scan es) = sum_list (map st_size (fst (scan es)))"
  by (induction es) (auto simp: st_size_def split: io.splits prod.splits)

lemma size_loop_prefix: "\<exists>k. s_attempted (size_loop t tot fs) = take k fs"
proof (induction fs arbitrary: tot)
  case Nil
  then show ?case by simp
next
  case (Cons f fs)
  show ?case
  proof (cases "int_lt_float tot t")
    case True
    then have "s_attempted (size_loop t tot (f # fs)) = take 0 (f # fs)" by simp
    then show ?thesis by blast
  next
    case False
    obtain tot' where a: "s_attempted (size_loop t tot (f # fs)) = f # s_attempted (size_loop t tot' fs)"
      using False by (cases "d_unlink f") (auto simp: Let_def)
    from Cons.IH [of tot'] obtain k where "s_attempted (size_loop t tot' fs) = take k fs" by blast
    with a have "s_attempted (size_loop t tot (f # fs)) = take (Suc k) (f # fs)" by simp
    then show ?thesis by blast
  qed
qed

lemma size_loop_total:
  "s_total (size_loop t tot fs) = running_total tot (s_attempted (size_loop t tot fs))"
  by (induction fs arbitrary: tot)
     (auto simp: Let_def running_total_def split: io.splits)

lemma size_loop_continues:
  "j < length (s_attempted (size_loop t tot fs)) \<Longrightarrow>
   \<not> int_lt_float (running_total tot (take j (s_attempted (size_loop t tot fs)))) t"
proof (induction fs arbitrary: tot j)
  case Nil
  then show ?case by simp
next
  case (Cons f fs)
  show ?case
  proof (cases "int_lt_float tot t")
    case True
    with Cons.prems show ?thesis by simp
  next
    case False
    show ?thesis
    proof (cases j)
      case 0
      with False show ?thesis by (simp add: running_total_def)
    next
      case (Suc i)
      show ?thesis
      proof (cases "d_unlink f")
        case (Ok u)
        with False Cons.prems Suc
        have "i < length (s_attempted (size_loop t (tot - st_size f) fs))"
          by (simp add: Let_def)
        from Cons.IH [OF this] show ?thesis
          using False Ok Suc by (simp add: Let_def running_total_def diff_diff_eq)
      next
        case NotFound
        with False Cons.prems Suc
        have "i < length (s_attempted (size_loop t (tot - st_size f) fs))"
          by (simp add: Let_def)
        from Cons.IH [OF this] show ?thesis
          using False NotFound Suc by (simp add: Let_def running_total_def diff_diff_eq)
      next
        case OsError
        with False Cons.prems Suc
        have "i < length (s_attempted (size_loop t tot fs))"
          by (simp add: Let_def)
        from Cons.IH [OF this] show ?thesis
          using False OsError Suc by (simp add: Let_def running_total_def diff_diff_eq)
      qed
    qed
  qed
qed

lemma size_loop_stops:
  "length (s_attempted (size_loop t tot fs)) < length fs \<Longrightarrow>
   int_lt_float (s_total (size_loop t tot fs)) t"
  by (induction fs arbitrary: tot) (auto simp: Let_def split: io.splits if_splits)

lemma size_loop_count:
  "s_deleted_count (size_loop t tot fs) = length (s_unlinked (size_loop t tot fs))
   \<and> s_unlinked (size_loop t tot fs) = filter (\<lambda>f. d_unlink f = Ok ()) (s_attempted (size_loop t tot fs))"
  by (induction fs arbitrary: tot) (auto simp: Let_def split: io.splits)

lemma sorted_take_sort_key: "sorted (map f (take k (sort_key f xs)))"
  by (metis sorted_sort_key sorted_wrt_take take_map)

section \<open>Facts about the read endpoint\<close>

lemma temp_path_of_final:
  assumes "key \<noteq> []" "CHR ''/'' \<notin> set key"
  shows "temp_path_of (get_path_from_key pd key) =
           Inr \<lparr>root = root (CACHE_DIR_PATH pd), parts = parts (CACHE_DIR_PATH pd) @ [key @ ''.mp3.tmp'']\<rparr>"
  unfolding temp_path_of_def by (rule with_suffix_get_path_from_key [OF assms]) simp_all

lemma lock_path_of_final:
  assumes "key \<noteq> []" "CHR ''/'' \<notin> set key"
  shows "lock_path_of (get_path_from_key pd key) =
           Inr \<lparr>root = root (CACHE_DIR_PATH pd), parts = parts (CACHE_DIR_PATH pd) @ [key @ ''.lock'']\<rparr>"
  unfolding lock_path_of_def by (rule with_suffix_get_path_from_key [OF assms]) simp_all

lemma temp_not_final:
  assumes "CHR ''/'' \<notin> set key"
  shows "\<lparr>root = root (CACHE_DIR_PATH pd), parts = parts (CACHE_DIR_PATH pd) @ [key @ ''.mp3.tmp'']\<rparr>
           \<noteq> get_path_from_key pd key"
  unfolding parts_get_path_from_key [OF assms] by simp

lemma lock_not_final:
  assumes "CHR ''/'' \<notin> set key"
  shows "\<lparr>root = root (CACHE_DIR_PATH pd), parts = parts (CACHE_DIR_PATH pd) @ [key @ ''.lock'']\<rparr>
           \<noteq> get_path_from_key pd key"
  unfolding parts_get_path_from_key [OF assms] by simp

lemma gen_next_suspended:
  assumes tp: "temp_path_of (g_final_path g) = Inr temp" "temp \<noteq> g_final_path g"
    and st: "g_state g = Suspended k"
    and fr: "tts_stream a (g_content g) = (frames, err)"
    and inv: "fs temp = Some (concat (take k frames))" "fs (g_final_path g) = None"
  shows "case gen_next a (g, fs) of
     (Yield b, g', fs') \<Rightarrow>
        k < length frames \<and> b = frames ! k \<and> g' = g\<lparr>g_state := Suspended (Suc k)\<rparr>
        \<and> fs' temp = Some (concat (take (Suc k) frames)) \<and> fs' (g_final_path g) = None
   | (StopIteration, g', fs') \<Rightarrow>
        length frames \<le> k \<and> err = None
        \<and> fs' (g_final_path g) = Some (concat frames) \<and> fs' temp = None
   | (Raise e, g', fs') \<Rightarrow> fs' (g_final_path g) = None \<and> fs' temp = None"
  using assms
  by (auto simp: gen_next_def resume_loop_def cleanup_temp_def take_Suc_conv_app_nth
      split: option.splits)

lemma pull_suspended:
  assumes tp: "temp_path_of (g_final_path g) = Inr temp" "temp \<noteq> g_final_path g"
    and st: "g_state g = Suspended k"
    and fr: "tts_stream a (g_content g) = (frames, err)"
    and inv: "fs temp = Some (concat (take k frames))" "fs (g_final_path g) = None"
    and le: "k \<le> length frames"
  shows "case pull a n (g, fs) of
     (bs, pr, g', fs') \<Rightarrow>
       (case pr of
          Ended \<Rightarrow> bs = drop k frames \<and> err = None
                   \<and> fs' (g_final_path g) = Some (concat frames) \<and> fs' temp = None
        | Errored e \<Rightarrow> fs' (g_final_path g) = None \<and> fs' temp = None
        | Running \<Rightarrow> bs = take n (drop k frames) \<and> g' = g\<lparr>g_state := Suspended (k + n)\<rparr>
                   \<and> k + n \<le> length frames
                   \<and> fs' temp = Some (concat (take (k + n) frames))
                   \<and> fs' (g_final_path g) = None)"
  using assms
proof (induction n arbitrary: g fs k)
  case 0
  have "g\<lparr>g_state := Suspended k\<rparr> = g" using 0(3) by (cases g) simp
  with 0 show ?case by simp
next
  case (Suc n)
  note step = gen_next_suspended [OF Suc.prems(1-6)]
  show ?case
  proof (cases "gen_next a (g, fs)")
    case (fields out g' fs')
    show ?thesis
    proof (cases out)
      case (Yield b)
      with step fields have y: "k < length frames" "b = frames ! k"
        "g' = g\<lparr>g_state := Suspended (Suc k)\<rparr>"
        "fs' temp = Some (concat (take (Suc k) frames))" "fs' (g_final_path g) = None"
        by simp_all
      have ih: "case pull a n (g', fs') of
         (bs, pr, g'', fs'') \<Rightarrow>
       (case pr of
          Ended \<Rightarrow> bs = drop (Suc k) frames \<and> err = None
                   \<and> fs'' (g_final_path g') = Some (concat frames) \<and> fs'' temp = None
        | Errored e \<Rightarrow> fs'' (g_final_path g') = None \<and> fs'' temp = None
        | Running \<Rightarrow> bs = take n (drop (Suc k) frames) \<and> g'' = g'\<lparr>g_state := Suspended (Suc k + n)\<rparr>
                   \<and> Suc k + n \<le> length frames
                   \<and> fs'' temp = Some (concat (take (Suc k + n) frames))
                   \<and> fs'' (g_final_path g') = None)"
        apply (rule Suc.IH)
        using Suc.prems y by simp_all
      have d: "drop k frames = frames ! k # drop (Suc k) frames"
        using y(1) by (simp add: Cons_nth_drop_Suc)
      show ?thesis
        using ih fields Yield y
        by (auto simp: d split: prod.splits progress.splits)
    next
      case StopIteration
      with step fields show ?thesis by auto
    next
      case (Raise e)
      with step fields show ?thesis by auto
    qed
  qed
qed

lemma gen_close_suspended:
  assumes "temp_path_of (g_final_path g) = Inr temp" "temp \<noteq> g_final_path g"
    and "g_state g = Suspended k" "fs (g_final_path g) = None"
  shows "snd (gen_close (g, fs)) temp = None \<and> snd (gen_close (g, fs)) (g_final_path g) = None"
  using assms by (auto simp: gen_close_def cleanup_temp_def)

lemma gen_next_created:
  assumes "temp_path_of (g_final_path g) = Inr temp" "g_state g = Created" "\<not> open_fails a"
  shows "gen_next a (g, fs) = gen_next a (g\<lparr>g_state := Suspended 0\<rparr>, fs(temp \<mapsto> []))"
  using assms
  by (cases "tts_stream a (g_content g)")
     (auto simp: gen_next_def resume_loop_def split: option.splits)

lemma gen_next_no_fault:
  assumes tp: "temp_path_of (g_final_path g) = Inr temp"
    and st: "g_state g = Suspended k"
    and fr: "tts_stream a (g_content g) = (frames, None)"
    and ok: "\<not> rename_fails a" "\<not> write_fails a k" "fs temp \<noteq> None"
  shows "\<exists>g' fs'. gen_next a (g, fs) =
           (if k < length frames then Yield (frames ! k) else StopIteration, g', fs')"
  using assms by (auto simp: gen_next_def resume_loop_def)

lemma pull_no_fault:
  assumes tp: "temp_path_of (g_final_path g) = Inr temp" "temp \<noteq> g_final_path g"
    and st: "g_state g = Suspended k"
    and fr: "tts_stream a (g_content g) = (frames, None)"
    and inv: "fs temp = Some (concat (take k frames))" "fs (g_final_path g) = None"
    and ok: "\<not> rename_fails a" "\<forall>j. \<not> write_fails a j"
  shows "fst (snd (pull a n (g, fs))) \<noteq> Errored e"
  using assms
proof (induction n arbitrary: g fs k)
  case 0
  then show ?case by simp
next
  case (Suc n)
  note step = gen_next_suspended [OF Suc.prems(1-6)]
  from Suc.prems have "fs temp \<noteq> None" "\<not> write_fails a k" by simp_all
  with Suc.prems(1,3,4,7) gen_next_no_fault [of g temp k a frames fs]
  obtain g' fs' where gn: "gen_next a (g, fs) =
      (if k < length frames then Yield (frames ! k) else StopIteration, g', fs')" by blast
  show ?case
  proof (cases "k < length frames")
    case True
    with gn step have y: "g' = g\<lparr>g_state := Suspended (Suc k)\<rparr>"
      "fs' temp = Some (concat (take (Suc k) frames))" "fs' (g_final_path g) = None"
      by simp_all
    have "fst (snd (pull a n (g', fs'))) \<noteq> Errored e"
      apply (rule Suc.IH [where k = "Suc k"])
      using Suc.prems y by simp_all
    with gn True show ?thesis by (auto split: prod.splits)
  next
    case False
    with gn show ?thesis by simp
  qed
qed

text \<open>The paths of the key used in the examples below.\<close>

lemma example_cache_dir:
  "CACHE_DIR_PATH \<lparr>root = ''/'', parts = [''srv'', ''radio'']\<rparr> =
      \<lparr>root = ''/'', parts = [''srv'', ''radio'', ''audio_cache'']\<rparr>"
  by (simp add: CACHE_DIR_PATH_def CACHE_DIR_NAME_def truediv_def segment_root_def
      segment_parts_def)

lemma example_paths:
  "get_path_from_key \<lparr>root = ''/'', parts = [''srv'', ''radio'']\<rparr> ''0cc175b9c0f1b6a831c399e269772661''
     = \<lparr>root = ''/'', parts = [''srv'', ''radio'', ''audio_cache'', ''0cc175b9c0f1b6a831c399e269772661.mp3'']\<rparr>"
  "lock_path_of \<lparr>root = ''/'', parts = [''srv'', ''radio'', ''audio_cache'', ''0cc175b9c0f1b6a831c399e269772661.mp3'']\<rparr>
     = Inr \<lparr>root = ''/'', parts = [''srv'', ''radio'', ''audio_cache'', ''0cc175b9c0f1b6a831c399e269772661.lock'']\<rparr>"
  "temp_path_of \<lparr>root = ''/'', parts = [''srv'', ''radio'', ''audio_cache'', ''0cc175b9c0f1b6a831c399e269772661.mp3'']\<rparr>
     = Inr \<lparr>root = ''/'', parts = [''srv'', ''radio'', ''audio_cache'', ''0cc175b9c0f1b6a831c399e269772661.mp3.tmp'']\<rparr>"
proof -
  have k: "''0cc175b9c0f1b6a831c399e269772661'' \<noteq> []"
    "CHR ''/'' \<notin> set ''0cc175b9c0f1b6a831c399e269772661''" by simp_all
  show a: "get_path_from_key \<lparr>root = ''/'', parts = [''srv'', ''radio'']\<rparr> ''0cc175b9c0f1b6a831c399e269772661''
     = \<lparr>root = ''/'', parts = [''srv'', ''radio'', ''audio_cache'', ''0cc175b9c0f1b6a831c399e269772661.mp3'']\<rparr>"
    using parts_get_path_from_key [OF k(2), of "\<lparr>root = ''/'', parts = [''srv'', ''radio'']\<rparr>"]
    by (simp add: example_cache_dir)
  show "lock_path_of \<lparr>root = ''/'', parts = [''srv'', ''radio'', ''audio_cache'', ''0cc175b9c0f1b6a831c399e269772661.mp3'']\<rparr>
     = Inr \<lparr>root = ''/'', parts = [''srv'', ''radio'', ''audio_cache'', ''0cc175b9c0f1b6a831c399e269772661.lock'']\<rparr>"
    using lock_path_of_final [OF k, of "\<lparr>root = ''/'', parts = [''srv'', ''radio'']\<rparr>"]
    unfolding a by (simp add: example_cache_dir)
  show "temp_path_of \<lparr>root = ''/'', parts = [''srv'', ''radio'', ''audio_cache'', ''0cc175b9c0f1b6a831c399e269772661.mp3'']\<rparr>
     = Inr \<lparr>root = ''/'', parts = [''srv'', ''radio'', ''audio_cache'', ''0cc175b9c0f1b6a831c399e269772661.mp3.tmp'']\<rparr>"
    using temp_path_of_final [OF k, of "\<lparr>root = ''/'', parts = [''srv'', ''radio'']\<rparr>"]
    unfolding a by (simp add: example_cache_dir)
qed


text \<open>
  A generation that runs alone on the directory, for a key whose final path
  does not exist, observed after any number \<open>n\<close> of frames requested by the
  server.  If the generator has ended, every frame was sent, the stream raised
  nothing, the final path holds the complete audio and the temp artifact is
  gone.  If it has raised (the stream's error, or a failing open, write or
  rename), the temp artifact is deleted and there is no file at the final
  path.  While it is suspended there is no file at the final path, and closing
  it (early termination) deletes the temp artifact and still leaves no final
  file.  With no error anywhere, asking for more frames than the stream has
  ends the generator.
\<close>

lemma generate_and_cache_alone:
  assumes key: "key \<noteq> []" "CHR ''/'' \<notin> set key"
    and g: "g = \<lparr>g_final_path = get_path_from_key (project_dir a) key,
                 g_content = content, g_state = Created\<rparr>"
    and tmp: "temp_path_of (get_path_from_key (project_dir a) key) = Inr temp"
    and fr: "tts_stream a content = (frames, err)"
    and miss: "fs (get_path_from_key (project_dir a) key) = None"
  shows "(case pull a n (g, fs) of
           (bs, pr, g', fs') \<Rightarrow>
             (case pr of
                Ended \<Rightarrow>
                  bs = frames \<and> err = None
                  \<and> fs' (get_path_from_key (project_dir a) key) = Some (concat frames)
                  \<and> fs' temp = None
              | Errored e \<Rightarrow>
                  fs' (get_path_from_key (project_dir a) key) = None \<and> fs' temp = None
              | Running \<Rightarrow>
                  fs' (get_path_from_key (project_dir a) key) = None
                  \<and> snd (gen_close (g', fs')) (get_path_from_key (project_dir a) key) = None
                  \<and> (0 < n \<longrightarrow> snd (gen_close (g', fs')) temp = None)))
       \<and> (err = None \<and> \<not> open_fails a \<and> \<not> rename_fails a \<and> (\<forall>k. \<not> write_fails a k)
            \<and> length frames < n \<longrightarrow> fst (snd (pull a n (g, fs))) = Ended)"
proof -
  let ?final = "get_path_from_key (project_dir a) key"
  let ?gs = "g\<lparr>g_state := Suspended 0\<rparr>"
  let ?fs0 = "fs(temp \<mapsto> [])"
  from tmp temp_path_of_final [OF key, of "project_dir a"] temp_not_final [OF key(2), of "project_dir a"]
  have ne: "temp \<noteq> ?final" by simp
  have gf: "g_final_path g = ?final" "g_content g = content" "g_state g = Created"
    by (simp_all add: g)
  show ?thesis
  proof (cases n)
    case 0
    then show ?thesis using gf miss by (simp add: gen_close_def)
  next
    case (Suc m)
    show ?thesis
    proof (cases "open_fails a")
      case True
      then have "gen_next a (g, fs) = (Raise OSError, g\<lparr>g_state := Finished\<rparr>, cleanup_temp fs temp)"
        using gf tmp by (simp add: gen_next_def)
      then show ?thesis
        using Suc True miss ne by (auto simp: cleanup_temp_def)
    next
      case False
      have eq: "pull a n (g, fs) = pull a n (?gs, ?fs0)"
        unfolding Suc pull.simps
        using gen_next_created [of g temp a fs] gf tmp False by simp
      have s1: "temp_path_of (g_final_path ?gs) = Inr temp" using gf tmp by simp
      have s2: "temp \<noteq> g_final_path ?gs" using gf ne by simp
      have s3: "g_state ?gs = Suspended 0" by simp
      have s4: "tts_stream a (g_content ?gs) = (frames, err)" using gf fr by simp
      have s5: "?fs0 temp = Some (concat (take 0 frames))" by simp
      have s6: "?fs0 (g_final_path ?gs) = None" using gf miss ne by simp
      have s7: "0 \<le> length frames" by simp
      note P = pull_suspended [where g = ?gs and fs = ?fs0 and k = 0 and n = n and temp = temp
          and a = a and frames = frames and err = err, OF s1 s2 s3 s4 s5 s6 s7]
      obtain bs pr g' fs' where r: "pull a n (?gs, ?fs0) = (bs, pr, g', fs')"
        by (cases "pull a n (?gs, ?fs0)") auto
      have first: "(case pr of
                Ended \<Rightarrow>
                  bs = frames \<and> err = None \<and> fs' ?final = Some (concat frames) \<and> fs' temp = None
              | Errored e \<Rightarrow> fs' ?final = None \<and> fs' temp = None
              | Running \<Rightarrow>
                  fs' ?final = None
                  \<and> snd (gen_close (g', fs')) ?final = None
                  \<and> (0 < n \<longrightarrow> snd (gen_close (g', fs')) temp = None))"
      proof (cases pr)
        case Running
        with P r gf have run: "g' = ?gs\<lparr>g_state := Suspended (0 + n)\<rparr>" "fs' ?final = None"
          by simp_all
        have "snd (gen_close (g', fs')) temp = None \<and> snd (gen_close (g', fs')) (g_final_path g') = None"
          apply (rule gen_close_suspended [where k = n])
          using run gf tmp ne by simp_all
        with run gf Running show ?thesis by simp
      next
        case Ended
        with P r gf show ?thesis by simp
      next
        case (Errored e)
        with P r gf show ?thesis by simp
      qed
      have second: "err = None \<and> \<not> open_fails a \<and> \<not> rename_fails a \<and> (\<forall>k. \<not> write_fails a k)
            \<and> length frames < n \<longrightarrow> pr = Ended"
      proof
        assume h: "err = None \<and> \<not> open_fails a \<and> \<not> rename_fails a \<and> (\<forall>k. \<not> write_fails a k)
            \<and> length frames < n"
        have s4': "tts_stream a (g_content ?gs) = (frames, None)" using s4 h by simp
        have "\<And>e. fst (snd (pull a n (?gs, ?fs0))) \<noteq> Errored e"
          apply (rule pull_no_fault [where g = ?gs and fs = ?fs0 and k = 0 and temp = temp
                and frames = frames, OF s1 s2 s3 s4' s5 s6])
          using h by simp_all
        then have nE: "\<And>e. pr \<noteq> Errored e" using r by simp
        have nR: "pr \<noteq> Running"
        proof
          assume "pr = Running"
          with P r have "0 + n \<le> length frames" by simp
          with h show False by simp
        qed
        from nE nR show "pr = Ended" by (cases pr) auto
      qed
      show ?thesis
        unfolding eq r using first second by simp
    qed
  qed
qed

text \<open>
  A stream of two frames read to its end: the final file holds both frames and
  the temp artifact is gone.
\<close>

lemma generate_and_cache_alone_example:
  "let a = \<lparr>project_dir = \<lparr>root = ''/'', parts = [''srv'', ''radio'']\<rparr>,
             tts_engine_up = True,
             md5_hexdigest = (\<lambda>url. ''0cc175b9c0f1b6a831c399e269772661''),
             MAX_CONTENT_LENGTH = 200000,
             get_metadata_with_cache = (\<lambda>url. Fetched [66, 111, 116]),
             tts_stream = (\<lambda>content. ([[1], [2]], None)),
             touch_fails = False, open_fails = False, write_fails = (\<lambda>k. False),
             rename_fails = False\<rparr>;
       final_path = \<lparr>root = ''/'', parts = [''srv'', ''radio'', ''audio_cache'',
                      ''0cc175b9c0f1b6a831c399e269772661.mp3'']\<rparr>;
       temp_path = \<lparr>root = ''/'', parts = [''srv'', ''radio'', ''audio_cache'',
                      ''0cc175b9c0f1b6a831c399e269772661.mp3.tmp'']\<rparr>;
       g = \<lparr>g_final_path = final_path, g_content = [66, 111, 116], g_state = Created\<rparr>
   in
     (case pull a 3 (g, Map.empty) of
        (bs, pr, g', fs') \<Rightarrow>
          pr = Ended \<and> bs = [[1], [2]] \<and> fs' final_path = Some [1, 2] \<and> fs' temp_path = None)"
proof -
  let ?a = "\<lparr>project_dir = \<lparr>root = ''/'', parts = [''srv'', ''radio'']\<rparr>,
             tts_engine_up = True,
             md5_hexdigest = (\<lambda>url. ''0cc175b9c0f1b6a831c399e269772661''),
             MAX_CONTENT_LENGTH = 200000,
             get_metadata_with_cache = (\<lambda>url. Fetched [66, 111, 116]),
             tts_stream = (\<lambda>content. ([[1::8 word], [2]], None :: error option)),
             touch_fails = False, open_fails = False, write_fails = (\<lambda>k. False),
             rename_fails = False\<rparr>"
  let ?final = "\<lparr>root = ''/'', parts = [''srv'', ''radio'', ''audio_cache'',
                      ''0cc175b9c0f1b6a831c399e269772661.mp3'']\<rparr>"
  let ?temp = "\<lparr>root = ''/'', parts = [''srv'', ''radio'', ''audio_cache'',
                      ''0cc175b9c0f1b6a831c399e269772661.mp3.tmp'']\<rparr>"
  let ?g = "\<lparr>g_final_path = ?final, g_content = [66, 111, 116], g_state = Created\<rparr>"
  have k: "''0cc175b9c0f1b6a831c399e269772661'' \<noteq> []"
    "CHR ''/'' \<notin> set ''0cc175b9c0f1b6a831c399e269772661''" by simp_all
  have gp: "get_path_from_key (project_dir ?a) ''0cc175b9c0f1b6a831c399e269772661'' = ?final"
    by (simp add: example_paths)
  have g: "?g = \<lparr>g_final_path = get_path_from_key (project_dir ?a) ''0cc175b9c0f1b6a831c399e269772661'',
                 g_content = [66, 111, 116], g_state = Created\<rparr>"
    unfolding gp by simp
  have tmp: "temp_path_of (get_path_from_key (project_dir ?a) ''0cc175b9c0f1b6a831c399e269772661'') = Inr ?temp"
    unfolding gp by (simp add: example_paths)
  have fr: "tts_stream ?a [66, 111, 116] = ([[1], [2]], None)" by simp
  have miss: "Map.empty (get_path_from_key (project_dir ?a) ''0cc175b9c0f1b6a831c399e269772661'') = None"
    by simp
  note t = generate_and_cache_alone [OF k g tmp fr miss, of 3, unfolded gp]
  obtain bs pr g' fs' where r: "pull ?a 3 (?g, Map.empty) = (bs, pr, g', fs')"
    by (cases "pull ?a 3 (?g, Map.empty)") auto
  from t r have e: "pr = Ended" by simp
  from t r e have "bs = [[1], [2]] \<and> fs' ?final = Some (concat [[1], [2]]) \<and> fs' ?temp = None"
    by simp
  with e r show ?thesis by (simp add: Let_def)
qed

section \<open>Claims\<close>

text \<open>
  C8, as the code has it.  For every non-empty key without a path separator
  (the keys \<open>read_stream\<close> uses are MD5 hex digests), the final cache entry is
  \<open><key>.mp3\<close>, the lock artifact is \<open><key>.lock\<close> and the temp artifact is
  \<open><key>.mp3.tmp\<close>, each a direct child of the cache directory.
\<close>

theorem C8_key_paths:
  assumes "key \<noteq> []" and "CHR ''/'' \<notin> set key"
  shows "get_path_from_key proj key =
           \<lparr>root = root (CACHE_DIR_PATH proj),
            parts = parts (CACHE_DIR_PATH proj) @ [key @ ''.mp3'']\<rparr>
       \<and> lock_path_of (get_path_from_key proj key) =
           Inr \<lparr>root = root (CACHE_DIR_PATH proj),
                parts = parts (CACHE_DIR_PATH proj) @ [key @ ''.lock'']\<rparr>
       \<and> temp_path_of (get_path_from_key proj key) =
           Inr \<lparr>root = root (CACHE_DIR_PATH proj),
                parts = parts (CACHE_DIR_PATH proj) @ [key @ ''.mp3.tmp'']\<rparr>
       \<and> parent (get_path_from_key proj key) = CACHE_DIR_PATH proj"
proof -
  have a: "get_path_from_key proj key =
           \<lparr>root = root (CACHE_DIR_PATH proj),
            parts = parts (CACHE_DIR_PATH proj) @ [key @ ''.mp3'']\<rparr>"
    by (rule parts_get_path_from_key [OF assms(2)])
  have b: "lock_path_of (get_path_from_key proj key) =
           Inr \<lparr>root = root (CACHE_DIR_PATH proj),
                parts = parts (CACHE_DIR_PATH proj) @ [key @ ''.lock'']\<rparr>"
    unfolding lock_path_of_def
    by (rule with_suffix_get_path_from_key [OF assms]) simp_all
  have c: "temp_path_of (get_path_from_key proj key) =
           Inr \<lparr>root = root (CACHE_DIR_PATH proj),
                parts = parts (CACHE_DIR_PATH proj) @ [key @ ''.mp3.tmp'']\<rparr>"
    unfolding temp_path_of_def
    by (rule with_suffix_get_path_from_key [OF assms]) simp_all
  have d: "parent (get_path_from_key proj key) = CACHE_DIR_PATH proj"
    unfolding a by (simp add: parent_def)
  from a b c d show ?thesis by blast
qed

theorem C8_key_paths_witness:
  "get_path_from_key \<lparr>root = ''/'', parts = [''srv'', ''radio'']\<rparr> ''0cc175b9c0f1b6a831c399e269772661'' =
      \<lparr>root = ''/'', parts = [''srv'', ''radio'', ''audio_cache'', ''0cc175b9c0f1b6a831c399e269772661.mp3'']\<rparr>
   \<and> lock_path_of (get_path_from_key \<lparr>root = ''/'', parts = [''srv'', ''radio'']\<rparr> ''0cc175b9c0f1b6a831c399e269772661'') =
      Inr \<lparr>root = ''/'', parts = [''srv'', ''radio'', ''audio_cache'', ''0cc175b9c0f1b6a831c399e269772661.lock'']\<rparr>
   \<and> temp_path_of (get_path_from_key \<lparr>root = ''/'', parts = [''srv'', ''radio'']\<rparr> ''0cc175b9c0f1b6a831c399e269772661'') =
      Inr \<lparr>root = ''/'', parts = [''srv'', ''radio'', ''audio_cache'', ''0cc175b9c0f1b6a831c399e269772661.mp3.tmp'']\<rparr>"
proof -
  have cd: "CACHE_DIR_PATH \<lparr>root = ''/'', parts = [''srv'', ''radio'']\<rparr> =
      \<lparr>root = ''/'', parts = [''srv'', ''radio'', ''audio_cache'']\<rparr>"
    by (simp add: CACHE_DIR_PATH_def CACHE_DIR_NAME_def truediv_def segment_root_def
        segment_parts_def)
  have h1: "''0cc175b9c0f1b6a831c399e269772661'' \<noteq> []"
    and h2: "CHR ''/'' \<notin> set ''0cc175b9c0f1b6a831c399e269772661''"
    by simp_all
  note t = C8_key_paths [OF h1 h2, of "\<lparr>root = ''/'', parts = [''srv'', ''radio'']\<rparr>",
      unfolded cd, simplified]
  from t show ?thesis by blast
qed

text \<open>
  C8 as stated fails: the final entry of a key is not named \<open><key>.audio\<close> and
  its temp artifact is not named \<open><key>.audio.tmp\<close>.
\<close>

theorem C8_audio_suffix_counterexample:
  "\<not> (name (get_path_from_key \<lparr>root = ''/'', parts = [''srv'', ''radio'']\<rparr>
             ''0cc175b9c0f1b6a831c399e269772661'') = ''0cc175b9c0f1b6a831c399e269772661.audio''
      \<and> map_sum id name (lock_path_of (get_path_from_key \<lparr>root = ''/'', parts = [''srv'', ''radio'']\<rparr>
             ''0cc175b9c0f1b6a831c399e269772661'')) = Inr ''0cc175b9c0f1b6a831c399e269772661.lock''
      \<and> map_sum id name (temp_path_of (get_path_from_key \<lparr>root = ''/'', parts = [''srv'', ''radio'']\<rparr>
             ''0cc175b9c0f1b6a831c399e269772661'')) = Inr ''0cc175b9c0f1b6a831c399e269772661.audio.tmp'')"
  by (simp add: name_get_path_from_key)

text \<open>
  C9.  The claim says that validation rejects exactly the strings that are not
  a sign, one to three digits and a percent sign.  The code accepts one more
  string for each of them: \<open>$\<close> also matches before a final newline, so
  \<open>+10%\<close> followed by a newline is returned unchanged although it is not a
  signed percentage, and an engine is constructed with it as its rate.
\<close>

theorem C9_trailing_newline_accepted:
  "validate_percent_string [CHR ''+'', CHR ''1'', CHR ''0'', CHR ''%'', CHR 0x0A]
     = Inr [CHR ''+'', CHR ''1'', CHR ''0'', CHR ''%'', CHR 0x0A]
   \<and> \<not> is_signed_percentage [CHR ''+'', CHR ''1'', CHR ''0'', CHR ''%'', CHR 0x0A]
   \<and> TTSEngine_init ''vi-VN-HoaiMyNeural'' [CHR ''+'', CHR ''1'', CHR ''0'', CHR ''%'', CHR 0x0A] ''+0%''
     = Inr \<lparr>voice = ''vi-VN-HoaiMyNeural'',
            rate = [CHR ''+'', CHR ''1'', CHR ''0'', CHR ''%'', CHR 0x0A], volume = ''+0%''\<rparr>"
  by (simp add: validate_percent_string_def re_match_percent_def is_signed_percentage_def
      is_digit_def at_dollar_def TTSEngine_init_def)

text \<open>
  C10.  For a text that is empty or holds only whitespace, \<open>stream\<close> yields
  nothing, raises nothing, creates no queue, starts no producer thread and
  never calls the synthesis service, whatever the overrides are.
\<close>

theorem C10_blank_text_yields_nothing:
  assumes "text = [] \<or> (\<forall>c \<in> set text. isspace c)"
  shows "stream self sy sched text rate_arg volume_arg =
           \<lparr>yielded = [], raised = None, queue_created = False, thread_started = False,
            synth_calls = []\<rparr>"
proof -
  from assms have "text = [] \<or> strip text = []"
    using strip_blank by blast
  then show ?thesis
    unfolding stream_def by (simp only: if_True)
qed

theorem C10_blank_text_witness:
  "stream \<lparr>voice = ''vi-VN-HoaiMyNeural'', rate = ''+0%'', volume = ''+0%''\<rparr>
      (\<lambda>chunk vo ra vol. ([AudioEvent [1, 2]], Completed)) (\<lambda>n. True)
      [32, 10, 9, 32] (Some ''fast'') None =
     \<lparr>yielded = [], raised = None, queue_created = False, thread_started = False,
      synth_calls = []\<rparr>"
proof -
  have h: "[32, 10, 9, 32] = [] \<or> (\<forall>c \<in> set [32, 10, 9, 32]. isspace c)"
    by (simp add: isspace_def)
  show ?thesis
    by (rule C10_blank_text_yields_nothing [OF h])
qed

text \<open>
  C3 as stated fails: an audio frame is enqueued by the blocking \<open>put\<close>, and on
  a full queue that call does not return, and it does not drop the oldest item.
\<close>

theorem C3_audio_put_blocks_counterexample:
  "stream_and_queue_chunk [AudioEvent [1]] = [Put (Audio [1])]
   \<and> length (replicate 100 (Audio [0])) = QUEUE_MAX_SIZE
   \<and> put (replicate 100 (Audio [0])) (Audio [1]) = None
   \<and> put (replicate 100 (Audio [0])) (Audio [1])
       \<noteq> Some (tl (replicate 100 (Audio [0])) @ [Audio [1]])
   \<and> \<not> producer_ready [Put (Audio [1])] (replicate 100 (Audio [0]))"
  by (simp add: put_def producer_ready_def QUEUE_MAX_SIZE_def)

text \<open>
  C3, as the code has it.  The producer enqueues audio frames with the blocking
  \<open>put\<close> and only an exception item or the final \<open>None\<close> through \<open>_safe_put\<close>.
  On a full queue \<open>_safe_put\<close> returns at once, having dropped exactly the
  oldest item and appended the new one, while \<open>put\<close> waits and drops nothing;
  with room left both append.
\<close>

theorem C3_backpressure:
  "(length q = QUEUE_MAX_SIZE \<longrightarrow>
      safe_put q item = Inr (tl q @ [item]) \<and> put q item = None)
   \<and> (length q < QUEUE_MAX_SIZE \<longrightarrow>
      safe_put q item = Inr (q @ [item]) \<and> put q item = Some (q @ [item]))
   \<and> (\<forall>a \<in> set (stream_and_queue_chunk evs). \<exists>d. a = Put (Audio d))
   \<and> (\<forall>a \<in> set (produce_audio sy vo ra vol chunks).
        (\<forall>i. a = SafePut i \<longrightarrow> i = Failure TTSEngineError \<or> i = Sentinel) \<and>
        (\<forall>i. a = Put i \<longrightarrow> (\<exists>d. i = Audio d)))"
proof (intro conjI impI ballI allI)
  assume "length q = QUEUE_MAX_SIZE"
  then show "safe_put q item = Inr (tl q @ [item])" by (rule safe_put_full)
next
  assume "length q = QUEUE_MAX_SIZE"
  then show "put q item = None" by (simp add: put_def)
next
  assume "length q < QUEUE_MAX_SIZE"
  then show "safe_put q item = Inr (q @ [item])" by (rule safe_put_room)
next
  assume "length q < QUEUE_MAX_SIZE"
  then show "put q item = Some (q @ [item])" by (simp add: put_def)
next
  fix a assume "a \<in> set (stream_and_queue_chunk evs)"
  then show "\<exists>d. a = Put (Audio d)" by (rule stream_and_queue_chunk_puts)
next
  fix a i assume "a \<in> set (produce_audio sy vo ra vol chunks)" "a = SafePut i"
  then show "i = Failure TTSEngineError \<or> i = Sentinel"
    using produce_audio_actions [of a sy vo ra vol chunks] by auto
next
  fix a i assume "a \<in> set (produce_audio sy vo ra vol chunks)" "a = Put i"
  then show "\<exists>d. i = Audio d"
    using produce_audio_actions [of a sy vo ra vol chunks] by auto
qed

theorem C3_backpressure_witness:
  "length (replicate 100 (Audio [0])) = QUEUE_MAX_SIZE
   \<and> safe_put (replicate 100 (Audio [0])) Sentinel = Inr (replicate 99 (Audio [0]) @ [Sentinel])
   \<and> put (replicate 100 (Audio [0])) Sentinel = None
   \<and> Put (Audio [7]) \<in> set (stream_and_queue_chunk [OtherEvent, AudioEvent [7]])
   \<and> SafePut Sentinel \<in> set (produce_audio (\<lambda>chunk vo ra vol. ([AudioEvent [7]], Completed))
         ''vi-VN-HoaiMyNeural'' ''+0%'' ''+0%'' [[97]])"
proof -
  have h: "length (replicate 100 (Audio [0])) = QUEUE_MAX_SIZE"
    by (simp add: QUEUE_MAX_SIZE_def)
  have t: "tl (replicate 100 (Audio [0])) = replicate 99 (Audio [0])"
    by (simp add: tl_replicate)
  from C3_backpressure [of "replicate 100 (Audio [0])" Sentinel] h
  have "safe_put (replicate 100 (Audio [0])) Sentinel = Inr (tl (replicate 100 (Audio [0])) @ [Sentinel])"
    and "put (replicate 100 (Audio [0])) Sentinel = None"
    by blast+
  moreover have "Put (Audio [7]) \<in> set (stream_and_queue_chunk [OtherEvent, AudioEvent [7]])"
    by simp
  moreover have "SafePut Sentinel \<in> set (produce_audio (\<lambda>chunk vo ra vol. ([AudioEvent [7]], Completed))
         ''vi-VN-HoaiMyNeural'' ''+0%'' ''+0%'' [[97]])"
    by (simp add: strip_def isspace_def)
  ultimately show ?thesis using h t by simp
qed

text \<open>
  C4.  The claim says no non-whitespace character is lost.  The code loses one
  at every forced cut: for a paragraph of 2501 letters \<open>a\<close> the only chunk is
  the first 2500 letters, and the last letter is in no chunk.
\<close>

theorem C4_forced_cut_drops_character:
  "chunk_text (replicate 2501 97) = [replicate 2500 97]
   \<and> filter (\<lambda>c. \<not> isspace c) (concat (chunk_text (replicate 2501 97)))
       \<noteq> filter (\<lambda>c. \<not> isspace c) (replicate 2501 97)"
proof -
  have n: "(2501::nat) = Suc TEXT_CHUNK_SIZE" and m: "(2500::nat) = TEXT_CHUNK_SIZE"
    by (simp_all add: TEXT_CHUNK_SIZE_def)
  have a: "chunk_text (replicate 2501 97) = [replicate 2500 97]"
    unfolding chunk_text_def n m
    by (rule chunk_text_limit_drops_char) (simp_all add: letter_a TEXT_CHUNK_SIZE_def)
  have "replicate 2500 (97::nat) \<noteq> replicate 2501 97"
    by (simp only: replicate_eq_replicate) simp
  then have b: "filter (\<lambda>c. \<not> isspace c) (concat [replicate 2500 97])
       \<noteq> filter (\<lambda>c. \<not> isspace c) (replicate 2501 97)"
    by (simp add: letter_a)
  from a b show ?thesis by simp
qed

text \<open>
  C5.  The claim says no yielded chunk is empty.  The code yields the empty
  accumulator when the first paragraph has 2499 characters: the chunks of 2499
  letters \<open>a\<close> are the empty string and the paragraph with its newline.  (The
  length bound of the claim holds: lemma \<open>chunk_text_within_limit\<close>.)
\<close>

theorem C5_empty_chunk_yielded:
  "chunk_text (replicate 2499 97) = [[], replicate 2499 97 @ [NEWLINE]]
   \<and> [] \<in> set (chunk_text (replicate 2499 97))"
proof -
  have "chunk_text (replicate 2499 97) = [[], replicate 2499 97 @ [NEWLINE]]"
    using chunk_text_limit_empty_chunk [of 97 2499]
    by (simp add: chunk_text_def TEXT_CHUNK_SIZE_def letter_a)
  then show ?thesis by simp
qed

text \<open>
  C7.  For every artifact \<open>e\<close> of the cache directory whose \<open>stat\<close> succeeds,
  the age pass calls \<open>unlink\<close> on it exactly when it is older than the maximum
  age, or its suffix is \<open>.tmp\<close> or \<open>.lock\<close> and it is older than one hour;
  otherwise it is left untouched.  It is deleted exactly when that call
  succeeds, and a file already gone (at \<open>stat\<close> or at \<open>unlink\<close>) is not logged as
  an error.  The count returned is the number of files deleted.
\<close>

theorem C7_age_pass:
  assumes "e \<in> set es"
  shows "(case d_stat e of
            Ok (sz, mtime) \<Rightarrow>
              (e \<in> set (attempted (cleanup_by_age cfg now (Ok es))) \<longleftrightarrow>
                 mtime < now - of_int (CACHE_MAX_AGE_DAYS cfg * 86400)
                 \<or> (suffix (d_path e) \<in> {''.tmp'', ''.lock''} \<and> mtime < now - 3600))
              \<and> (e \<in> set (unlinked (cleanup_by_age cfg now (Ok es))) \<longleftrightarrow>
                   e \<in> set (attempted (cleanup_by_age cfg now (Ok es))) \<and> d_unlink e = Ok ())
              \<and> (e \<in> set (logged (cleanup_by_age cfg now (Ok es))) \<longleftrightarrow>
                   e \<in> set (attempted (cleanup_by_age cfg now (Ok es))) \<and> d_unlink e = OsError)
          | NotFound \<Rightarrow>
              e \<notin> set (attempted (cleanup_by_age cfg now (Ok es)))
              \<and> e \<notin> set (logged (cleanup_by_age cfg now (Ok es)))
          | OsError \<Rightarrow>
              e \<notin> set (attempted (cleanup_by_age cfg now (Ok es)))
              \<and> e \<in> set (logged (cleanup_by_age cfg now (Ok es))))
       \<and> deleted_count (cleanup_by_age cfg now (Ok es))
           = length (unlinked (cleanup_by_age cfg now (Ok es)))"
proof -
  have r: "cleanup_by_age cfg now (Ok es) = age_loop cfg now es"
    by (simp add: cleanup_by_age_def)
  have c: "deleted_count (age_loop cfg now es) = length (unlinked (age_loop cfg now es))"
    by (rule age_loop_count)
  show ?thesis
  proof (cases "d_stat e")
    case (Ok st)
    obtain sz mtime where st: "st = (sz, mtime)" by (cases st)
    have a: "e \<in> set (attempted (age_loop cfg now es)) \<longleftrightarrow>
        mtime < now - of_int (CACHE_MAX_AGE_DAYS cfg * 86400)
        \<or> (suffix (d_path e) \<in> {''.tmp'', ''.lock''} \<and> mtime < now - 3600)"
      using assms Ok st
      by (simp add: age_loop_attempted is_old_cache_file_def is_stale_temp_file_def
          SECONDS_IN_A_DAY_def STALE_TEMP_FILE_SECONDS_def)
    have l: "e \<in> set (logged (age_loop cfg now es)) \<longleftrightarrow>
        e \<in> set (attempted (age_loop cfg now es)) \<and> d_unlink e = OsError"
      using assms Ok by (simp add: age_loop_logged)
    show ?thesis
      unfolding r using Ok st a l c age_loop_unlinked [of e cfg now es] by simp
  next
    case NotFound
    then show ?thesis
      unfolding r using c by (simp add: age_loop_attempted age_loop_logged)
  next
    case OsError
    then show ?thesis
      unfolding r using c assms by (simp add: age_loop_attempted age_loop_logged)
  qed
qed

text \<open>
  The example of the specification: with a maximum age of 7 days, of two
  entries aged 8 days and 1 day only the first is deleted, and a \<open>.lock\<close> file
  aged 2 hours is deleted as well.
\<close>

theorem C7_age_pass_witness:
  "\<lparr>d_path = \<lparr>root = ''/'', parts = [''cache'', ''c.lock'']\<rparr>, d_is_file = True,
     d_stat = Ok (0, 992800), d_unlink = Ok ()\<rparr>
   \<in> set (unlinked (cleanup_by_age default_config 1000000 (Ok
      [\<lparr>d_path = \<lparr>root = ''/'', parts = [''cache'', ''a.mp3'']\<rparr>, d_is_file = True,
          d_stat = Ok (5000, 308800), d_unlink = Ok ()\<rparr>,
       \<lparr>d_path = \<lparr>root = ''/'', parts = [''cache'', ''b.mp3'']\<rparr>, d_is_file = True,
          d_stat = Ok (7000, 913600), d_unlink = Ok ()\<rparr>,
       \<lparr>d_path = \<lparr>root = ''/'', parts = [''cache'', ''c.lock'']\<rparr>, d_is_file = True,
          d_stat = Ok (0, 992800), d_unlink = Ok ()\<rparr>])))
   \<and> attempted (cleanup_by_age default_config 1000000 (Ok
      [\<lparr>d_path = \<lparr>root = ''/'', parts = [''cache'', ''a.mp3'']\<rparr>, d_is_file = True,
          d_stat = Ok (5000, 308800), d_unlink = Ok ()\<rparr>,
       \<lparr>d_path = \<lparr>root = ''/'', parts = [''cache'', ''b.mp3'']\<rparr>, d_is_file = True,
          d_stat = Ok (7000, 913600), d_unlink = Ok ()\<rparr>,
       \<lparr>d_path = \<lparr>root = ''/'', parts = [''cache'', ''c.lock'']\<rparr>, d_is_file = True,
          d_stat = Ok (0, 992800), d_unlink = Ok ()\<rparr>]))
     = [\<lparr>d_path = \<lparr>root = ''/'', parts = [''cache'', ''a.mp3'']\<rparr>, d_is_file = True,
          d_stat = Ok (5000, 308800), d_unlink = Ok ()\<rparr>,
        \<lparr>d_path = \<lparr>root = ''/'', parts = [''cache'', ''c.lock'']\<rparr>, d_is_file = True,
          d_stat = Ok (0, 992800), d_unlink = Ok ()\<rparr>]"
proof -
  let ?a = "\<lparr>d_path = \<lparr>root = ''/'', parts = [''cache'', ''a.mp3'']\<rparr>, d_is_file = True,
          d_stat = Ok (5000, 308800), d_unlink = Ok ()\<rparr>"
  let ?b = "\<lparr>d_path = \<lparr>root = ''/'', parts = [''cache'', ''b.mp3'']\<rparr>, d_is_file = True,
          d_stat = Ok (7000, 913600), d_unlink = Ok ()\<rparr>"
  let ?c = "\<lparr>d_path = \<lparr>root = ''/'', parts = [''cache'', ''c.lock'']\<rparr>, d_is_file = True,
          d_stat = Ok (0, 992800), d_unlink = Ok ()\<rparr>"
  have sa: "suffix \<lparr>root = ''/'', parts = [''cache'', ''a.mp3'']\<rparr> = ''.mp3''"
    and sb: "suffix \<lparr>root = ''/'', parts = [''cache'', ''b.mp3'']\<rparr> = ''.mp3''"
    and sc: "suffix \<lparr>root = ''/'', parts = [''cache'', ''c.lock'']\<rparr> = ''.lock''"
    by (simp_all add: suffix_def name_def rfind_def)
  have h: "?c \<in> set [?a, ?b, ?c]" by simp
  have att: "attempted (cleanup_by_age default_config 1000000 (Ok [?a, ?b, ?c])) = [?a, ?c]"
    by (simp add: cleanup_by_age_def Let_def is_old_cache_file_def is_stale_temp_file_def
        default_config_def SECONDS_IN_A_DAY_def STALE_TEMP_FILE_SECONDS_def sa sb sc)
  from C7_age_pass [OF h, of default_config 1000000]
  have "?c \<in> set (unlinked (cleanup_by_age default_config 1000000 (Ok [?a, ?b, ?c])))"
    unfolding att by simp
  with att show ?thesis by simp
qed

text \<open>
  C6 as stated fails where it says the pass stops as soon as the running total
  is at most the target.  With the default limits (400 MB, 70 percent) the
  target is 293601280, which is the product of the integers and also the value
  of the float.  After the older of two files is deleted the running total
  equals the target, and the pass deletes the other file too.
\<close>

theorem C6_stops_at_target_counterexample:
  "s_attempted (cleanup_by_size default_config (Finite 293601280) (Ok
      [\<lparr>d_path = \<lparr>root = ''/'', parts = [''cache'', ''b.mp3'']\<rparr>, d_is_file = True,
          d_stat = Ok (293601280, 200), d_unlink = Ok ()\<rparr>,
       \<lparr>d_path = \<lparr>root = ''/'', parts = [''cache'', ''a.mp3'']\<rparr>, d_is_file = True,
          d_stat = Ok (125829120, 100), d_unlink = Ok ()\<rparr>]))
     = [\<lparr>d_path = \<lparr>root = ''/'', parts = [''cache'', ''a.mp3'']\<rparr>, d_is_file = True,
          d_stat = Ok (125829120, 100), d_unlink = Ok ()\<rparr>,
        \<lparr>d_path = \<lparr>root = ''/'', parts = [''cache'', ''b.mp3'']\<rparr>, d_is_file = True,
          d_stat = Ok (293601280, 200), d_unlink = Ok ()\<rparr>]
   \<and> running_total 419430400
        [\<lparr>d_path = \<lparr>root = ''/'', parts = [''cache'', ''a.mp3'']\<rparr>, d_is_file = True,
          d_stat = Ok (125829120, 100), d_unlink = Ok ()\<rparr>] = 293601280
   \<and> of_int (CACHE_MAX_SIZE_BYTES default_config)
        * (of_int (CACHE_CLEANUP_TARGET_PERCENT default_config) / 100) = (293601280 :: real)"
  by (simp add: cleanup_by_size_def default_config_def CACHE_MAX_SIZE_BYTES_def
      st_mtime_def st_size_def running_total_def Let_def)

text \<open>
  C6, as the code has it, for every directory listing, every maximum size and
  every value \<open>target\<close> of the float \<open>CACHE_CLEANUP_TARGET_BYTES\<close>.  The files of
  the pass are the entries that are files and whose \<open>stat\<close> succeeds, and the
  total is the sum of their sizes.  The size pass does nothing when the total
  is below the maximum size.  Otherwise it goes through the files in ascending
  order of modification time and stops as soon as the running total is
  strictly below the target: before every deletion it attempts the running
  total is not below the target, and when it stops early the total is below
  the target.  The running total goes down by the size of every file deleted
  or found missing.
\<close>

theorem C6_size_pass:
  "let files = filter (\<lambda>e. d_is_file e \<and> (case d_stat e of Ok s \<Rightarrow> True | _ \<Rightarrow> False)) es;
       total_size = sum_list (map st_size files);
       r = cleanup_by_size cfg target (Ok es)
   in (total_size < CACHE_MAX_SIZE_BYTES cfg \<longrightarrow>
         s_attempted r = [] \<and> s_deleted_count r = 0 \<and> s_total r = total_size)
    \<and> (CACHE_MAX_SIZE_BYTES cfg \<le> total_size \<longrightarrow>
         (\<exists>k. s_attempted r = take k (sort_key st_mtime files))
       \<and> sorted (map st_mtime (s_attempted r))
       \<and> (\<forall>j < length (s_attempted r).
             \<not> int_lt_float (running_total total_size (take j (s_attempted r))) target)
       \<and> (length (s_attempted r) < length files \<longrightarrow> int_lt_float (s_total r) target)
       \<and> s_total r = running_total total_size (s_attempted r)
       \<and> s_unlinked r = filter (\<lambda>f. d_unlink f = Ok ()) (s_attempted r)
       \<and> s_deleted_count r = length (s_unlinked r))"
proof -
  let ?files = "filter (\<lambda>e. d_is_file e \<and> (case d_stat e of Ok s \<Rightarrow> True | _ \<Rightarrow> False)) es"
  let ?total = "sum_list (map st_size ?files)"
  let ?r = "cleanup_by_size cfg target (Ok es)"
  let ?fs = "sort_key st_mtime ?files"
  have sc: "scan es = (?files, ?total)"
    using scan_files [of es] scan_total [of es] by (cases "scan es") simp
  have below: "s_attempted ?r = [] \<and> s_deleted_count ?r = 0 \<and> s_total ?r = ?total"
    if "?total < CACHE_MAX_SIZE_BYTES cfg"
    using that sc by (simp add: cleanup_by_size_def)
  have above: "(\<exists>k. s_attempted ?r = take k ?fs)
       \<and> sorted (map st_mtime (s_attempted ?r))
       \<and> (\<forall>j < length (s_attempted ?r).
             \<not> int_lt_float (running_total ?total (take j (s_attempted ?r))) target)
       \<and> (length (s_attempted ?r) < length ?files \<longrightarrow> int_lt_float (s_total ?r) target)
       \<and> s_total ?r = running_total ?total (s_attempted ?r)
       \<and> s_unlinked ?r = filter (\<lambda>f. d_unlink f = Ok ()) (s_attempted ?r)
       \<and> s_deleted_count ?r = length (s_unlinked ?r)"
    if "CACHE_MAX_SIZE_BYTES cfg \<le> ?total"
  proof -
    have r: "?r = size_loop target ?total ?fs"
      using that sc by (simp add: cleanup_by_size_def)
    from size_loop_prefix [of target ?total ?fs]
    obtain k where k: "s_attempted (size_loop target ?total ?fs) = take k ?fs" by blast
    have 1: "\<exists>k. s_attempted ?r = take k ?fs"
      unfolding r using k by blast
    have 2: "sorted (map st_mtime (s_attempted ?r))"
      unfolding r k by (rule sorted_take_sort_key)
    have 3: "\<forall>j < length (s_attempted ?r).
          \<not> int_lt_float (running_total ?total (take j (s_attempted ?r))) target"
      unfolding r using size_loop_continues by blast
    have 4: "length (s_attempted ?r) < length ?files \<longrightarrow> int_lt_float (s_total ?r) target"
    proof
      assume "length (s_attempted ?r) < length ?files"
      then have "length (s_attempted (size_loop target ?total ?fs)) < length ?fs"
        unfolding r by simp
      then show "int_lt_float (s_total ?r) target"
        unfolding r by (rule size_loop_stops)
    qed
    have 5: "s_total ?r = running_total ?total (s_attempted ?r)"
      unfolding r by (rule size_loop_total)
    have 6: "s_unlinked ?r = filter (\<lambda>f. d_unlink f = Ok ()) (s_attempted ?r)"
      unfolding r using size_loop_count by blast
    have 7: "s_deleted_count ?r = length (s_unlinked ?r)"
      unfolding r using size_loop_count by blast
    from 1 2 3 4 5 6 7 show ?thesis by blast
  qed
  from below above show ?thesis
    unfolding Let_def by blast
qed

text \<open>
  The example of the specification: files of 200 MB, 200 MB and 100 MB, a
  maximum of 400 MB and a target of 70 percent.  The two oldest files are
  attempted, the second of them is found missing, and the pass stops with
  100 MB left, below the target.
\<close>

theorem C6_size_pass_witness:
  "s_attempted (cleanup_by_size default_config (Finite 293601280) (Ok
     [\<lparr>d_path = \<lparr>root = ''/'', parts = [''cache'', ''c.mp3'']\<rparr>, d_is_file = True,
         d_stat = Ok (104857600, 300), d_unlink = Ok ()\<rparr>,
      \<lparr>d_path = \<lparr>root = ''/'', parts = [''cache'', ''a.mp3'']\<rparr>, d_is_file = True,
         d_stat = Ok (209715200, 100), d_unlink = Ok ()\<rparr>,
      \<lparr>d_path = \<lparr>root = ''/'', parts = [''cache'', ''b.mp3'']\<rparr>, d_is_file = True,
         d_stat = Ok (209715200, 200), d_unlink = NotFound\<rparr>]))
    = [\<lparr>d_path = \<lparr>root = ''/'', parts = [''cache'', ''a.mp3'']\<rparr>, d_is_file = True,
         d_stat = Ok (209715200, 100), d_unlink = Ok ()\<rparr>,
       \<lparr>d_path = \<lparr>root = ''/'', parts = [''cache'', ''b.mp3'']\<rparr>, d_is_file = True,
         d_stat = Ok (209715200, 200), d_unlink = NotFound\<rparr>]
   \<and> s_total (cleanup_by_size default_config (Finite 293601280) (Ok
     [\<lparr>d_path = \<lparr>root = ''/'', parts = [''cache'', ''c.mp3'']\<rparr>, d_is_file = True,
         d_stat = Ok (104857600, 300), d_unlink = Ok ()\<rparr>,
      \<lparr>d_path = \<lparr>root = ''/'', parts = [''cache'', ''a.mp3'']\<rparr>, d_is_file = True,
         d_stat = Ok (209715200, 100), d_unlink = Ok ()\<rparr>,
      \<lparr>d_path = \<lparr>root = ''/'', parts = [''cache'', ''b.mp3'']\<rparr>, d_is_file = True,
         d_stat = Ok (209715200, 200), d_unlink = NotFound\<rparr>])) = 104857600
   \<and> int_lt_float (s_total (cleanup_by_size default_config (Finite 293601280) (Ok
     [\<lparr>d_path = \<lparr>root = ''/'', parts = [''cache'', ''c.mp3'']\<rparr>, d_is_file = True,
         d_stat = Ok (104857600, 300), d_unlink = Ok ()\<rparr>,
      \<lparr>d_path = \<lparr>root = ''/'', parts = [''cache'', ''a.mp3'']\<rparr>, d_is_file = True,
         d_stat = Ok (209715200, 100), d_unlink = Ok ()\<rparr>,
      \<lparr>d_path = \<lparr>root = ''/'', parts = [''cache'', ''b.mp3'']\<rparr>, d_is_file = True,
         d_stat = Ok (209715200, 200), d_unlink = NotFound\<rparr>]))) (Finite 293601280)"
proof -
  let ?a = "\<lparr>d_path = \<lparr>root = ''/'', parts = [''cache'', ''a.mp3'']\<rparr>, d_is_file = True,
         d_stat = Ok (209715200, 100), d_unlink = Ok ()\<rparr>"
  let ?b = "\<lparr>d_path = \<lparr>root = ''/'', parts = [''cache'', ''b.mp3'']\<rparr>, d_is_file = True,
         d_stat = Ok (209715200, 200), d_unlink = NotFound\<rparr>"
  let ?c = "\<lparr>d_path = \<lparr>root = ''/'', parts = [''cache'', ''c.mp3'']\<rparr>, d_is_file = True,
         d_stat = Ok (104857600, 300), d_unlink = Ok ()\<rparr>"
  let ?r = "cleanup_by_size default_config (Finite 293601280) (Ok [?c, ?a, ?b])"
  have fl: "filter (\<lambda>e. d_is_file e \<and> (case d_stat e of Ok s \<Rightarrow> True | _ \<Rightarrow> False)) [?c, ?a, ?b]
              = [?c, ?a, ?b]"
    by simp
  have tot: "sum_list (map st_size [?c, ?a, ?b]) = 524288000"
    by (simp add: st_size_def)
  have big: "CACHE_MAX_SIZE_BYTES default_config \<le> 524288000"
    by (simp add: CACHE_MAX_SIZE_BYTES_def default_config_def)
  have att: "s_attempted ?r = [?a, ?b]"
    by (simp add: cleanup_by_size_def default_config_def CACHE_MAX_SIZE_BYTES_def
        st_mtime_def st_size_def Let_def)
  note t = C6_size_pass [of "[?c, ?a, ?b]" default_config "Finite 293601280",
      unfolded Let_def fl tot]
  from t big have "s_total ?r = running_total 524288000 (s_attempted ?r)"
    and "length (s_attempted ?r) < length [?c, ?a, ?b] \<longrightarrow> int_lt_float (s_total ?r) (Finite 293601280)"
    by blast+
  then have "s_total ?r = 104857600" and "int_lt_float (s_total ?r) (Finite 293601280)"
    unfolding att by (simp_all add: running_total_def st_size_def)
  with att show ?thesis by simp
qed

text \<open>
  C2.  The claim says that every generation whose frame sequence completes
  without error renames the temp artifact to the final path.  A generation
  that runs alone does (lemma \<open>generate_and_cache_alone\<close>), but the temp path
  is the same for every generation of a key, and the lock that should keep
  them apart is gone before the first frame.  Below, a first request has
  received its first frame when a second request for the same URL gets a
  generator of its own, which opens the same temp path, yields a frame and is
  closed by its client: its \<open>finally\<close> block deletes the temp artifact.  The
  first generation then yields its last frame from a stream that raises
  nothing, with no failing file operation of its own, and its \<open>rename\<close> raises
  \<open>FileNotFoundError\<close>: the response ends in an exception and there is no file
  at the final path.
\<close>

theorem C2_overlapping_generation_loses_entry:
  "let a = \<lparr>project_dir = \<lparr>root = ''/'', parts = [''srv'', ''radio'']\<rparr>,
             tts_engine_up = True,
             md5_hexdigest = (\<lambda>url. ''0cc175b9c0f1b6a831c399e269772661''),
             MAX_CONTENT_LENGTH = 200000,
             get_metadata_with_cache = (\<lambda>url. Fetched [66, 111, 116]),
             tts_stream = (\<lambda>content. ([[1], [2]], None)),
             touch_fails = False, open_fails = False, write_fails = (\<lambda>k. False),
             rename_fails = False\<rparr>;
       url = ''http://truyen.example/chuong-1'';
       final_path = \<lparr>root = ''/'', parts = [''srv'', ''radio'', ''audio_cache'',
                      ''0cc175b9c0f1b6a831c399e269772661.mp3'']\<rparr>;
       temp_path = \<lparr>root = ''/'', parts = [''srv'', ''radio'', ''audio_cache'',
                      ''0cc175b9c0f1b6a831c399e269772661.mp3.tmp'']\<rparr>;
       g = \<lparr>g_final_path = final_path, g_content = [66, 111, 116], g_state = Created\<rparr>
   in
     (case read_stream a Map.empty url of
        (response1, fs1) \<Rightarrow>
          response1 = StreamGenerated g \<and>
          (case gen_next a (g, fs1) of
             (out1, g1, fs2) \<Rightarrow>
               out1 = Yield [1] \<and> g_state g1 = Suspended 1 \<and> fs2 temp_path \<noteq> None \<and>
               (case read_stream a fs2 url of
                  (response2, fs3) \<Rightarrow>
                    response2 = StreamGenerated g \<and>
                    (case gen_next a (g, fs3) of
                       (out2, g2, fs4) \<Rightarrow>
                         out2 = Yield [1] \<and> g_state g2 = Suspended 1 \<and>
                         (case gen_close (g2, fs4) of
                            (g3, fs5) \<Rightarrow>
                              g_state g3 = Finished \<and> fs5 temp_path = None \<and>
                              (case pull a 2 (g1, fs5) of
                                 (bs, pr, g4, fs6) \<Rightarrow>
                                   bs = [[2]] \<and> pr = Errored FileNotFoundError \<and>
                                   pr \<noteq> Ended \<and>
                                   fs6 final_path = None \<and> fs6 temp_path = None))))))"
  by (simp add: Let_def read_stream_def example_paths check_cache_exists_def release_lock_def
      truncate_content_def gen_next_def resume_loop_def gen_close_def cleanup_temp_def
      numeral_2_eq_2)

text \<open>
  C1.  The claim says the lock artifact stays until the generation in flight
  completes, fails or is cancelled, and that a concurrent request for the same
  key is rejected.  In the code the \<open>finally\<close> block of \<open>read_stream\<close> deletes
  the lock when the view function returns the streaming response, before the
  generator has produced a frame.  Below, a first request on an empty cache
  returns its generator with the lock already gone; after the generator has
  produced its first frame (the temp artifact holds it, no final file exists
  yet), a second request for the same URL is not answered with status 429 but
  gets a generator of its own, a second producer for the key.
\<close>

theorem C1_lock_released_before_generation:
  "let a = \<lparr>project_dir = \<lparr>root = ''/'', parts = [''srv'', ''radio'']\<rparr>,
             tts_engine_up = True,
             md5_hexdigest = (\<lambda>url. ''0cc175b9c0f1b6a831c399e269772661''),
             MAX_CONTENT_LENGTH = 200000,
             get_metadata_with_cache = (\<lambda>url. Fetched [66, 111, 116]),
             tts_stream = (\<lambda>content. ([[1], [2]], None)),
             touch_fails = False, open_fails = False, write_fails = (\<lambda>k. False),
             rename_fails = False\<rparr>;
       url = ''http://truyen.example/chuong-1'';
       final_path = \<lparr>root = ''/'', parts = [''srv'', ''radio'', ''audio_cache'',
                      ''0cc175b9c0f1b6a831c399e269772661.mp3'']\<rparr>;
       lock_path = \<lparr>root = ''/'', parts = [''srv'', ''radio'', ''audio_cache'',
                      ''0cc175b9c0f1b6a831c399e269772661.lock'']\<rparr>;
       temp_path = \<lparr>root = ''/'', parts = [''srv'', ''radio'', ''audio_cache'',
                      ''0cc175b9c0f1b6a831c399e269772661.mp3.tmp'']\<rparr>;
       g = \<lparr>g_final_path = final_path, g_content = [66, 111, 116], g_state = Created\<rparr>
   in
     (case read_stream a Map.empty url of
        (response1, fs1) \<Rightarrow>
          response1 = StreamGenerated g \<and> fs1 lock_path = None \<and>
          (case gen_next a (g, fs1) of
             (out, g1, fs2) \<Rightarrow>
               out = Yield [1] \<and> g_state g1 = Suspended 1 \<and>
               fs2 temp_path = Some [1] \<and> fs2 final_path = None \<and> fs2 lock_path = None \<and>
               fst (read_stream a fs2 url) = StreamGenerated g \<and>
               fst (read_stream a fs2 url) \<noteq> Json 429))"
  by (simp add: Let_def read_stream_def example_paths check_cache_exists_def release_lock_def
      truncate_content_def gen_next_def resume_loop_def)

end
